theory Spec2Isabelle
  imports Main "HOL-Library.AList"
begin

section \<open>Strings of the source language\<close>

text \<open>
  The source is Python. A Python \<open>str\<close> is a sequence of code points; the model takes
  \<open>string\<close> (a list of 8-bit characters) and reads each character as the code point of
  the same number, so the model covers texts over the code points 0 to 255. The string
  methods below are Python's, restricted to that range.
\<close>

definition isspace :: "char \<Rightarrow> bool" where
  "isspace c = (c \<in> set [CHR 0x09, CHR 0x0A, CHR 0x0B, CHR 0x0C, CHR 0x0D,
     CHR 0x1C, CHR 0x1D, CHR 0x1E, CHR 0x1F, CHR 0x20, CHR 0x85, CHR 0xA0])"

definition isalpha :: "char \<Rightarrow> bool" where
  "isalpha c = (let n = (of_char c :: nat) in
     (65 \<le> n \<and> n \<le> 90) \<or> (97 \<le> n \<and> n \<le> 122) \<or> n = 170 \<or> n = 181 \<or> n = 186 \<or>
     (192 \<le> n \<and> n \<le> 214) \<or> (216 \<le> n \<and> n \<le> 246) \<or> (248 \<le> n \<and> n \<le> 255))"

definition isalnum :: "char \<Rightarrow> bool" where
  "isalnum c = (let n = (of_char c :: nat) in
     isalpha c \<or> (48 \<le> n \<and> n \<le> 57) \<or> n = 178 \<or> n = 179 \<or> n = 185 \<or>
     (188 \<le> n \<and> n \<le> 190))"

text \<open>
  \<open>char.isalnum\<close> written without the call parentheses is the bound method object
  itself, and Python takes any method object as true in a condition.
\<close>

definition method_truth :: "(char \<Rightarrow> bool) \<Rightarrow> bool" where
  "method_truth m = True"

definition lower_char :: "char \<Rightarrow> char" where
  "lower_char c = (let n = (of_char c :: nat) in
     if (65 \<le> n \<and> n \<le> 90) \<or> (192 \<le> n \<and> n \<le> 222 \<and> n \<noteq> 215)
     then char_of (n + 32) else c)"

text \<open>
  Three code points below 256 have an upper-case form outside that range (181, 255) or
  of two characters (223); \<open>upper_char\<close> leaves them as they are. The source compares
  an upper-cased slice with \<open>!DOCTYPE\<close> and upper-cases the name \<open>!doctype\<close>; neither
  result depends on these three.
\<close>

definition upper_char :: "char \<Rightarrow> char" where
  "upper_char c = (let n = (of_char c :: nat) in
     if (97 \<le> n \<and> n \<le> 122) \<or> (224 \<le> n \<and> n \<le> 254 \<and> n \<noteq> 247)
     then char_of (n - 32) else c)"

definition lower :: "string \<Rightarrow> string" where
  "lower s = map lower_char s"

definition upper :: "string \<Rightarrow> string" where
  "upper s = map upper_char s"

definition strip :: "string \<Rightarrow> string" where
  "strip s = rev (dropWhile isspace (rev (dropWhile isspace s)))"

text \<open>The slice \<open>s[a:b]\<close> for indices that are not negative.\<close>

definition slice :: "string \<Rightarrow> nat \<Rightarrow> nat \<Rightarrow> string" where
  "slice s a b = take (b - a) (drop a s)"

definition startswith :: "string \<Rightarrow> string \<Rightarrow> bool" where
  "startswith s pre = (take (length pre) s = pre)"

text \<open>\<open>s.find(sub, i)\<close>: the least index from \<open>i\<close> on where \<open>sub\<close> starts; \<open>None\<close> for -1.\<close>

function find :: "string \<Rightarrow> string \<Rightarrow> nat \<Rightarrow> nat option" where
  "find s sub i =
     (if length s < i + length sub then None
      else if slice s i (i + length sub) = sub then Some i
      else find s sub (i + 1))"
  by pat_completeness auto
termination
proof (relation "measure (\<lambda>(s, sub, i). length s - i)")
  fix s sub :: string and i :: nat
  assume a: "\<not> length s < i + length sub" and b: "slice s i (i + length sub) \<noteq> sub"
  have "i < length s"
  proof (rule ccontr)
    assume "\<not> i < length s"
    with a have "length sub = 0" by arith
    then have "sub = []" by simp
    with b show False by (simp add: slice_def)
  qed
  then show "((s, sub, i + 1), (s, sub, i)) \<in> measure (\<lambda>(s, sub, i). length s - i)"
    by simp
qed simp

declare find.simps [simp del]

section \<open>Errors\<close>

text \<open>
  Every \<open>raise\<close> of the source is one constructor: \<open>IndexError\<close> is Python's own, for
  an index past the end of a string; the others are the \<open>Exception\<close>s of \<open>parser.py\<close> and
  \<open>document.py\<close>, named after what their messages say, with the position they report.
  \<^item> \<open>UnparsableSegment\<close>: "Could not read a node, text node or comment at position"
  \<^item> \<open>UnmatchedCloseTag\<close>: "A close tag was found that has no matching open at position"
  \<^item> \<open>StrayCloseTag\<close>: "A closing tag was found at the root level of the document at position"
  \<^item> \<open>UnidentifiedTag\<close>: "An unidentified tag was found at position"
  \<^item> \<open>UnclosedElement\<close>: "HTML ended before all tags were closed."
  \<^item> \<open>UnknownNodeType\<close>: "Unknown node type."
\<close>

datatype error =
    IndexError
  | UnparsableSegment nat
  | UnmatchedCloseTag nat
  | StrayCloseTag nat
  | UnidentifiedTag nat
  | UnclosedElement
  | UnknownNodeType

text \<open>\<open>s[i]\<close> for an index that is not negative.\<close>

definition char_at :: "string \<Rightarrow> nat \<Rightarrow> error + char" where
  "char_at s i = (if i < length s then Inr (s ! i) else Inl IndexError)"

section \<open>The segment tokenizer (parser.py)\<close>

type_synonym attributes = "(string \<times> string) list"

text \<open>
  A Python \<open>dict\<close> keeps its keys in insertion order, and assigning to a key that is
  present keeps the key's place: an association list with \<open>AList.update\<close>.
\<close>

datatype HTMLParserSegment =
    HTMLParserElementSegment (seg_text: string) (seg_start: nat) (seg_end: nat)
      (seg_name: string) (seg_open: bool) (seg_close: bool) (seg_attributes: attributes)
  | HTMLParserTextSegment (seg_text: string) (seg_start: nat) (seg_end: nat)
  | HTMLParserCommentSegment (seg_text: string) (seg_start: nat) (seg_end: nat)
      (seg_comment: string)

record HTMLParser =
  self_html :: string
  self_strict :: bool
  self_position :: nat
  self_segmentCurrent :: "HTMLParserSegment option"
  self_segmentNext :: "HTMLParserSegment option"

definition self_htmlLength :: "HTMLParser \<Rightarrow> nat" where
  "self_htmlLength self = length (self_html self)"

definition HTMLParser_init :: "string \<Rightarrow> bool \<Rightarrow> HTMLParser" where
  "HTMLParser_init html strict =
     \<lparr>self_html = html, self_strict = strict, self_position = 0,
      self_segmentCurrent = None, self_segmentNext = None\<rparr>"

definition contextSwitchTags :: "string list" where
  "contextSwitchTags = [''script'', ''style'', ''block'']"

subsection \<open>Utility methods\<close>

function readWhitespace :: "HTMLParser \<Rightarrow> nat \<Rightarrow> nat" where
  "readWhitespace self position =
     (if position < self_htmlLength self \<and> isspace (self_html self ! position)
      then readWhitespace self (position + 1)
      else position)"
  by pat_completeness auto
termination
  by (relation "measure (\<lambda>(self, position). self_htmlLength self - position)") auto

declare readWhitespace.simps [simp del]

definition unwrap :: "string \<Rightarrow> string" where
  "unwrap text =
     (if startswith text ''\"'' \<or> startswith text [CHR 0x27]
      then slice text 1 (length text - 1)
      else text)"

definition readTagNameDoctype :: "HTMLParser \<Rightarrow> nat \<Rightarrow> nat option" where
  "readTagNameDoctype self position =
     (let doctype = ''!DOCTYPE'';
          end = position + length doctype
      in if end < self_htmlLength self \<and>
            (slice (self_html self) position end = doctype \<or>
             (\<not> self_strict self \<and> upper (slice (self_html self) position end) = doctype))
         then (let char = self_html self ! end
               in if isspace char \<or> char \<in> set ''/>'' then Some end else None)
         else None)"

text \<open>
  The loop of \<open>_readTagName\<close>: \<open>Inl ()\<close> is the \<open>return None\<close> inside the loop, \<open>Inr p\<close> the
  position at which the loop is left.
\<close>

function readTagName_loop :: "HTMLParser \<Rightarrow> nat \<Rightarrow> nat \<Rightarrow> unit + nat" where
  "readTagName_loop self start position =
     (if position < self_htmlLength self then
        (let char = self_html self ! position
         in if isspace char \<or> char \<in> set ''/>'' then Inr position
            else if self_strict self \<and>
                    (if position = start
                     then \<not> isalpha char \<and> char \<notin> set ''_''
                     else \<not> isalnum char \<and> char \<notin> set ''-_.'')
                 then Inl ()
                 else readTagName_loop self start (position + 1))
      else Inr position)"
  by pat_completeness auto
termination
  by (relation "measure (\<lambda>(self, start, position). self_htmlLength self - position)") auto

declare readTagName_loop.simps [simp del]

definition readTagName :: "HTMLParser \<Rightarrow> nat \<Rightarrow> nat option" where
  "readTagName self position =
     (let start = position
      in case readTagNameDoctype self position of
           Some result \<Rightarrow> Some result
         | None \<Rightarrow>
             (case readTagName_loop self start position of
                Inl _ \<Rightarrow> None
              | Inr position \<Rightarrow> if position > start then Some position else None))"

text \<open>
  The loop over a quoted name or value, the same in \<open>_readTagAttributeProperty\<close> and
  \<open>_readTagAttributeValue\<close>: \<open>Some p\<close> is \<open>matched\<close> with the position after the closing
  quote, \<open>None\<close> is the end of the text with no closing quote.
\<close>

function readQuoted_loop :: "HTMLParser \<Rightarrow> char \<Rightarrow> nat \<Rightarrow> nat option" where
  "readQuoted_loop self quote position =
     (if position < self_htmlLength self then
        (let char = self_html self ! position
         in if char = quote then Some (position + 1)
            else if char = CHR 0x5C then readQuoted_loop self quote (position + 2)
            else readQuoted_loop self quote (position + 1))
      else None)"
  by pat_completeness auto
termination
  by (relation "measure (\<lambda>(self, quote, position). self_htmlLength self - position)") auto

declare readQuoted_loop.simps [simp del]

text \<open>
  The loop over an unquoted attribute name. Its strict-mode test reads
  \<open>not char.isalnum and char not in ["-", "_", "."]\<close>, with the method not called.
\<close>

function readTagAttributeProperty_loop :: "HTMLParser \<Rightarrow> nat \<Rightarrow> unit + nat" where
  "readTagAttributeProperty_loop self position =
     (if position < self_htmlLength self then
        (let char = self_html self ! position
         in if isspace char \<or> char \<in> set ''=/>'' then Inr position
            else if self_strict self \<and> \<not> method_truth isalnum \<and> char \<notin> set ''-_.''
                 then Inl ()
                 else readTagAttributeProperty_loop self (position + 1))
      else Inr position)"
  by pat_completeness auto
termination
  by (relation "measure (\<lambda>(self, position). self_htmlLength self - position)") auto

declare readTagAttributeProperty_loop.simps [simp del]

definition is_quote :: "char \<Rightarrow> bool" where
  "is_quote c = (c \<in> set [CHR 0x22, CHR 0x27])"

text \<open>
  In strict mode a quoted name is refused first. Both the strict test and the test that
  follows it read the character at \<open>position\<close>, so one read stands for both.
\<close>

definition readTagAttributeProperty :: "HTMLParser \<Rightarrow> nat \<Rightarrow> error + nat option" where
  "readTagAttributeProperty self position =
     (let start = position
      in case char_at (self_html self) position of
           Inl e \<Rightarrow> Inl e
         | Inr quote \<Rightarrow>
             if self_strict self \<and> is_quote quote then Inr None
             else if is_quote quote then Inr (readQuoted_loop self quote (position + 1))
             else
               (case readTagAttributeProperty_loop self position of
                  Inl _ \<Rightarrow> Inr None
                | Inr position \<Rightarrow>
                    if position > start then Inr (Some position) else Inr None))"

function readTagAttributeValue_loop :: "HTMLParser \<Rightarrow> nat \<Rightarrow> nat" where
  "readTagAttributeValue_loop self position =
     (if position < self_htmlLength self then
        (let char = self_html self ! position
         in if isspace char \<or> char \<in> set ''/>'' then position
            else readTagAttributeValue_loop self (position + 1))
      else position)"
  by pat_completeness auto
termination
  by (relation "measure (\<lambda>(self, position). self_htmlLength self - position)") auto

declare readTagAttributeValue_loop.simps [simp del]

definition readTagAttributeValue :: "HTMLParser \<Rightarrow> nat \<Rightarrow> error + nat option" where
  "readTagAttributeValue self position =
     (case char_at (self_html self) position of
        Inl e \<Rightarrow> Inl e
      | Inr quote \<Rightarrow>
          if is_quote quote then Inr (readQuoted_loop self quote (position + 1))
          else if \<not> self_strict self then Inr (Some (readTagAttributeValue_loop self position))
          else Inr None)"

text \<open>
  \<open>_readTagAttribute\<close> writes into the dictionary it is given; the model returns the end
  position together with the dictionary after the write.
\<close>

definition readTagAttribute ::
  "HTMLParser \<Rightarrow> nat \<Rightarrow> attributes \<Rightarrow> error + (nat \<times> attributes) option" where
  "readTagAttribute self position0 attributes =
     (let position = readWhitespace self position0
      in case readTagAttributeProperty self position of
           Inl e \<Rightarrow> Inl e
         | Inr None \<Rightarrow> Inr None
         | Inr (Some result) \<Rightarrow>
             (let name = lower (strip (unwrap (slice (self_html self) position result)));
                  position = readWhitespace self result
              in case char_at (self_html self) position of
                   Inl e \<Rightarrow> Inl e
                 | Inr c \<Rightarrow>
                     if c = CHR ''='' then
                       (let position = position + 1
                        in case readTagAttributeValue self position of
                             Inl e \<Rightarrow> Inl e
                           | Inr None \<Rightarrow> Inr None
                           | Inr (Some result) \<Rightarrow>
                               (let value = unwrap (slice (self_html self) position result);
                                    position = result
                                in if self_strict self \<and> name \<in> fst ` set attributes
                                   then Inr None
                                   else Inr (Some (position, AList.update name value attributes))))
                     else
                       (let value = ''true''
                        in if self_strict self \<and> name \<in> fst ` set attributes
                           then Inr None
                           else Inr (Some (position, AList.update name value attributes)))))"


subsection \<open>Positions returned by the utility methods\<close>

lemma readWhitespace_ge: "position \<le> readWhitespace self position"
proof (induction self position rule: readWhitespace.induct)
  case (1 self position)
  show ?case
  proof (cases "position < self_htmlLength self \<and> isspace (self_html self ! position)")
    case True
    with "1.IH" have "position + 1 \<le> readWhitespace self (position + 1)" by simp
    with True show ?thesis by (subst readWhitespace.simps) auto
  next
    case False
    then show ?thesis by (subst readWhitespace.simps) auto
  qed
qed

lemma readWhitespace_le:
  "position \<le> self_htmlLength self \<Longrightarrow> readWhitespace self position \<le> self_htmlLength self"
proof (induction self position rule: readWhitespace.induct)
  case (1 self position)
  show ?case
  proof (cases "position < self_htmlLength self \<and> isspace (self_html self ! position)")
    case True
    with "1.IH" have "readWhitespace self (position + 1) \<le> self_htmlLength self" by simp
    with True show ?thesis by (subst readWhitespace.simps) auto
  next
    case False
    with "1.prems" show ?thesis by (subst readWhitespace.simps) auto
  qed
qed

lemma readQuoted_loop_bounds:
  "readQuoted_loop self quote position = Some result \<Longrightarrow>
   position < result \<and> result \<le> self_htmlLength self"
proof (induction self quote position rule: readQuoted_loop.induct)
  case (1 self quote position)
  from "1.prems" have lt: "position < self_htmlLength self"
    by (simp add: readQuoted_loop.simps [of self quote position] split: if_splits)
  show ?case
  proof (cases "self_html self ! position = quote")
    case True
    with lt "1.prems" show ?thesis
      by (simp add: readQuoted_loop.simps [of self quote position])
  next
    case False
    show ?thesis
    proof (cases "self_html self ! position = CHR 0x5C")
      case True
      with False lt "1.prems" have "readQuoted_loop self quote (position + 2) = Some result"
        by (simp add: readQuoted_loop.simps [of self quote position])
      with "1.IH"(1) [OF lt refl False True] show ?thesis by simp
    next
      case bs: False
      with False lt "1.prems" have "readQuoted_loop self quote (position + 1) = Some result"
        by (simp add: readQuoted_loop.simps [of self quote position])
      with "1.IH"(2) [OF lt refl False bs] show ?thesis by simp
    qed
  qed
qed

lemma readTagAttributeProperty_loop_bounds:
  "readTagAttributeProperty_loop self position = Inr result \<Longrightarrow>
   position \<le> self_htmlLength self \<Longrightarrow>
   position \<le> result \<and> result \<le> self_htmlLength self"
proof (induction self position rule: readTagAttributeProperty_loop.induct)
  case (1 self position)
  show ?case
  proof (cases "position < self_htmlLength self")
    case lt: True
    let ?char = "self_html self ! position"
    show ?thesis
    proof (cases "isspace ?char \<or> ?char \<in> set ''=/>''")
      case True
      with lt "1.prems" show ?thesis
        by (subst (asm) readTagAttributeProperty_loop.simps) auto
    next
      case False
      with lt "1.prems"(1)
      have no: "\<not> (self_strict self \<and> \<not> method_truth isalnum \<and> ?char \<notin> set ''-_.'')"
        and rec: "readTagAttributeProperty_loop self (position + 1) = Inr result"
        by (auto simp: readTagAttributeProperty_loop.simps [of self position] Let_def
            split: if_splits)
      from "1.IH" [OF lt refl False no rec] lt show ?thesis by simp
    qed
  next
    case False
    with "1.prems" show ?thesis
      by (subst (asm) readTagAttributeProperty_loop.simps) auto
  qed
qed

lemma readTagAttributeProperty_bounds:
  assumes "readTagAttributeProperty self position = Inr (Some result)"
  shows "position < result \<and> result \<le> self_htmlLength self"
proof -
  from assms have lt: "position < self_htmlLength self"
    by (auto simp: readTagAttributeProperty_def char_at_def self_htmlLength_def
        split: if_splits)
  let ?q = "self_html self ! position"
  from lt have ch: "char_at (self_html self) position = Inr ?q"
    by (simp add: char_at_def self_htmlLength_def)
  show ?thesis
  proof (cases "is_quote ?q")
    case True
    with assms ch have "readQuoted_loop self ?q (position + 1) = Some result"
      by (simp add: readTagAttributeProperty_def split: if_splits)
    from readQuoted_loop_bounds [OF this] show ?thesis by simp
  next
    case False
    with assms ch obtain r where r: "readTagAttributeProperty_loop self position = Inr r"
      and res: "position < r" "result = r"
      by (auto simp: readTagAttributeProperty_def split: sum.splits if_splits)
    from readTagAttributeProperty_loop_bounds [OF r] lt res show ?thesis by simp
  qed
qed

lemma readTagAttributeValue_loop_bounds:
  "position \<le> self_htmlLength self \<Longrightarrow>
   position \<le> readTagAttributeValue_loop self position \<and>
   readTagAttributeValue_loop self position \<le> self_htmlLength self"
proof (induction self position rule: readTagAttributeValue_loop.induct)
  case (1 self position)
  show ?case
  proof (cases "position < self_htmlLength self")
    case lt: True
    let ?char = "self_html self ! position"
    show ?thesis
    proof (cases "isspace ?char \<or> ?char \<in> set ''/>''")
      case True
      with lt have "readTagAttributeValue_loop self position = position"
        by (subst readTagAttributeValue_loop.simps) auto
      with lt show ?thesis by simp
    next
      case False
      from "1.IH" [OF lt refl False] lt
      have "position + 1 \<le> readTagAttributeValue_loop self (position + 1) \<and>
            readTagAttributeValue_loop self (position + 1) \<le> self_htmlLength self"
        by simp
      moreover from lt False
      have "readTagAttributeValue_loop self position =
            readTagAttributeValue_loop self (position + 1)"
        by (subst readTagAttributeValue_loop.simps) auto
      ultimately show ?thesis by simp
    qed
  next
    case False
    then have "readTagAttributeValue_loop self position = position"
      by (subst readTagAttributeValue_loop.simps) auto
    with "1.prems" show ?thesis by simp
  qed
qed

lemma readTagAttributeValue_bounds:
  assumes "readTagAttributeValue self position = Inr (Some result)"
  shows "position \<le> result \<and> result \<le> self_htmlLength self"
proof -
  from assms have lt: "position < self_htmlLength self"
    by (auto simp: readTagAttributeValue_def char_at_def self_htmlLength_def
        split: if_splits)
  let ?q = "self_html self ! position"
  from lt have ch: "char_at (self_html self) position = Inr ?q"
    by (simp add: char_at_def self_htmlLength_def)
  show ?thesis
  proof (cases "is_quote ?q")
    case True
    with assms ch have "readQuoted_loop self ?q (position + 1) = Some result"
      by (simp add: readTagAttributeValue_def)
    from readQuoted_loop_bounds [OF this] show ?thesis by simp
  next
    case False
    with assms ch have "result = readTagAttributeValue_loop self position"
      by (auto simp: readTagAttributeValue_def split: if_splits)
    with readTagAttributeValue_loop_bounds [of position self] lt show ?thesis by simp
  qed
qed

lemma readTagAttribute_bounds:
  assumes "readTagAttribute self position attributes = Inr (Some (result, attributes'))"
  shows "position < result \<and> result \<le> self_htmlLength self"
proof -
  let ?p1 = "readWhitespace self position"
  from assms obtain r1 where r1: "readTagAttributeProperty self ?p1 = Inr (Some r1)"
    by (auto simp: readTagAttribute_def Let_def split: sum.splits option.splits)
  from readTagAttributeProperty_bounds [OF r1]
  have b1: "?p1 < r1" "r1 \<le> self_htmlLength self" by simp_all
  let ?p2 = "readWhitespace self r1"
  have b2: "r1 \<le> ?p2" "?p2 \<le> self_htmlLength self"
    using readWhitespace_ge [of r1 self] readWhitespace_le [OF b1(2)] by simp_all
  from assms r1 obtain c where c: "char_at (self_html self) ?p2 = Inr c"
    by (auto simp: readTagAttribute_def Let_def split: sum.splits)
  then have lt2: "?p2 < self_htmlLength self"
    by (simp add: char_at_def self_htmlLength_def split: if_splits)
  have ge: "position \<le> ?p1" by (rule readWhitespace_ge)
  show ?thesis
  proof (cases "c = CHR ''=''")
    case True
    with assms r1 c have "readTagAttributeValue self (?p2 + 1) = Inr (Some result)"
      by (auto simp: readTagAttribute_def Let_def split: sum.splits option.splits if_splits)
    from readTagAttributeValue_bounds [OF this] ge b1 b2 show ?thesis by simp
  next
    case False
    with assms r1 c have "result = ?p2"
      by (auto simp: readTagAttribute_def Let_def split: if_splits)
    with ge b1 b2 show ?thesis by simp
  qed
qed

subsection \<open>Main methods\<close>

text \<open>The attribute loop of \<open>_readTag\<close>, with the dictionary of the segment being read.\<close>

function readTag_attributes ::
  "HTMLParser \<Rightarrow> nat \<Rightarrow> attributes \<Rightarrow> error + (nat \<times> attributes)" where
  "readTag_attributes self position attributes =
     (case readTagAttribute self position attributes of
        Inl e \<Rightarrow> Inl e
      | Inr None \<Rightarrow> Inr (position, attributes)
      | Inr (Some (result, attributes')) \<Rightarrow>
          readTag_attributes self (readWhitespace self result) attributes')"
  by pat_completeness auto
termination
proof (relation "measure (\<lambda>(self, position, attributes). self_htmlLength self - position)")
  fix self :: HTMLParser and position :: nat and attributes :: attributes
    and x2 x2a x y
  assume "readTagAttribute self position attributes = Inr x2" "x2 = Some x2a" "(x, y) = x2a"
  then have "readTagAttribute self position attributes = Inr (Some (x, y))" by simp
  from readTagAttribute_bounds [OF this] readWhitespace_ge [of x self]
  have "self_htmlLength self - readWhitespace self x < self_htmlLength self - position"
    by arith
  then show "((self, readWhitespace self x, y), (self, position, attributes))
        \<in> measure (\<lambda>(self, position, attributes). self_htmlLength self - position)"
    by simp
qed simp

declare readTag_attributes.simps [simp del]

definition readTag :: "HTMLParser \<Rightarrow> nat \<Rightarrow> error + HTMLParserSegment option" where
  "readTag self position0 =
     (let start = position0
      in case char_at (self_html self) position0 of
           Inl e \<Rightarrow> Inl e
         | Inr c \<Rightarrow>
             if c \<noteq> CHR ''<'' then Inr None
             else
               (let position = position0 + 1
                in case char_at (self_html self) position of
                     Inl e \<Rightarrow> Inl e
                   | Inr c \<Rightarrow>
                       (let (position, open, close) =
                              (if c = CHR ''/'' then (position + 1, False, True)
                               else (position, True, False));
                            position = (if \<not> self_strict self
                                        then readWhitespace self position else position)
                        in case readTagName self position of
                             None \<Rightarrow> Inr None
                           | Some result \<Rightarrow>
                               (let name = lower (unwrap (slice (self_html self) position result));
                                    position = readWhitespace self result
                                in case readTag_attributes self position [] of
                                     Inl e \<Rightarrow> Inl e
                                   | Inr (position, attributes) \<Rightarrow>
                                       if \<not> open \<and> length attributes > 0 then Inr None
                                       else
                                         (case char_at (self_html self) position of
                                            Inl e \<Rightarrow> Inl e
                                          | Inr c \<Rightarrow>
                                              if c = CHR ''/'' \<and> self_strict self \<and> close
                                              then Inr None
                                              else
                                                (let (close, position) =
                                                       (if c = CHR ''/'' then (True, position + 1)
                                                        else (close, position));
                                                     position = (if \<not> self_strict self
                                                                 then readWhitespace self position
                                                                 else position)
                                                 in case char_at (self_html self) position of
                                                      Inl e \<Rightarrow> Inl e
                                                    | Inr c \<Rightarrow>
                                                        if c = CHR ''>'' then
                                                          (let end = position + 1
                                                           in Inr (Some (HTMLParserElementSegment
                                                                (slice (self_html self) start end)
                                                                start end name open close
                                                                attributes)))
                                                        else Inr None))))))"

definition readComment :: "HTMLParser \<Rightarrow> nat \<Rightarrow> HTMLParserSegment option" where
  "readComment self position0 =
     (let start = position0
      in if slice (self_html self) position0 (position0 + 4) = ''<!--'' then
           (let position = position0 + 4
            in case find (self_html self) ''-->'' position of
                 Some found \<Rightarrow>
                   (let end = found + 3
                    in Some (HTMLParserCommentSegment (slice (self_html self) start end)
                         start end (strip (slice (self_html self) position found))))
               | None \<Rightarrow> None)
         else None)"


lemma find_bounds:
  "find s sub i = Some found \<Longrightarrow>
   i \<le> found \<and> found + length sub \<le> length s \<and> slice s found (found + length sub) = sub"
proof (induction s sub i rule: find.induct)
  case (1 s sub i)
  show ?case
  proof (cases "length s < i + length sub")
    case True
    with "1.prems" show ?thesis by (subst (asm) find.simps) simp
  next
    case fits: False
    show ?thesis
    proof (cases "slice s i (i + length sub) = sub")
      case True
      with fits "1.prems" have "found = i" by (subst (asm) find.simps) simp
      with fits True show ?thesis by simp
    next
      case False
      with fits "1.prems" have "find s sub (i + 1) = Some found"
        by (subst (asm) find.simps) simp
      from "1.IH" [OF fits False this] show ?thesis by simp
    qed
  qed
qed

lemma readTagName_loop_bounds:
  "readTagName_loop self start position = Inr result \<Longrightarrow>
   position \<le> self_htmlLength self \<Longrightarrow>
   position \<le> result \<and> result \<le> self_htmlLength self"
proof (induction self start position rule: readTagName_loop.induct)
  case (1 self start position)
  show ?case
  proof (cases "position < self_htmlLength self")
    case lt: True
    let ?char = "self_html self ! position"
    show ?thesis
    proof (cases "isspace ?char \<or> ?char \<in> set ''/>''")
      case True
      with lt "1.prems" show ?thesis
        by (subst (asm) readTagName_loop.simps) auto
    next
      case False
      with lt "1.prems"(1)
      have no: "\<not> (self_strict self \<and>
                  (if position = start then \<not> isalpha ?char \<and> ?char \<notin> set ''_''
                   else \<not> isalnum ?char \<and> ?char \<notin> set ''-_.''))"
        and rec: "readTagName_loop self start (position + 1) = Inr result"
        by (subst (asm) readTagName_loop.simps, simp add: Let_def split: if_splits)+
      from "1.IH" [OF lt refl False no rec] lt show ?thesis by simp
    qed
  next
    case False
    with "1.prems" show ?thesis
      by (subst (asm) readTagName_loop.simps) auto
  qed
qed

lemma readTagNameDoctype_bounds:
  "readTagNameDoctype self position = Some result \<Longrightarrow>
   position < result \<and> result < self_htmlLength self"
  by (auto simp: readTagNameDoctype_def Let_def split: if_splits)

lemma readTagName_bounds:
  assumes "readTagName self position = Some result" "position \<le> self_htmlLength self"
  shows "position < result \<and> result \<le> self_htmlLength self"
proof (cases "readTagNameDoctype self position")
  case (Some r)
  with assms have "result = r" by (simp add: readTagName_def)
  with readTagNameDoctype_bounds [OF Some] show ?thesis by simp
next
  case None
  with assms obtain r where r: "readTagName_loop self position position = Inr r"
    and res: "position < r" "result = r"
    by (auto simp: readTagName_def split: sum.splits if_splits)
  from readTagName_loop_bounds [OF r assms(2)] res show ?thesis by simp
qed

lemma readTag_attributes_bounds:
  "readTag_attributes self position attributes = Inr (result, attributes') \<Longrightarrow>
   position \<le> self_htmlLength self \<Longrightarrow>
   position \<le> result \<and> result \<le> self_htmlLength self"
proof (induction self position attributes rule: readTag_attributes.induct)
  case (1 self position attributes)
  show ?case
  proof (cases "readTagAttribute self position attributes")
    case (Inl e)
    with "1.prems" show ?thesis by (subst (asm) readTag_attributes.simps) simp
  next
    case (Inr r)
    show ?thesis
    proof (cases r)
      case None
      with Inr "1.prems" show ?thesis by (subst (asm) readTag_attributes.simps) simp
    next
      case (Some pa)
      obtain p a where pa: "pa = (p, a)" by (cases pa)
      from Inr Some pa have rta: "readTagAttribute self position attributes = Inr (Some (p, a))"
        by simp
      from readTagAttribute_bounds [OF rta]
      have b: "position < p" "p \<le> self_htmlLength self" by simp_all
      from rta "1.prems"(1)
      have rec: "readTag_attributes self (readWhitespace self p) a = Inr (result, attributes')"
        by (subst (asm) readTag_attributes.simps) simp
      from "1.IH" [OF Inr Some pa [symmetric] rec] readWhitespace_le [OF b(2)]
        readWhitespace_ge [of p self] b
      show ?thesis by simp
    qed
  qed
qed

definition is_element :: "HTMLParserSegment \<Rightarrow> bool" where
  "is_element segment =
     (case segment of HTMLParserElementSegment _ _ _ _ _ _ _ \<Rightarrow> True | _ \<Rightarrow> False)"

lemma readTag_bounds:
  assumes "readTag self position = Inr (Some segment)"
  shows "is_element segment \<and> seg_start segment = position \<and>
         position + 2 < seg_end segment \<and> seg_end segment \<le> self_htmlLength self \<and>
         seg_text segment = slice (self_html self) (seg_start segment) (seg_end segment)"
proof -
  let ?h = "self_html self"
  from assms have lt0: "position < self_htmlLength self"
    by (auto simp: readTag_def char_at_def self_htmlLength_def split: if_splits)
  then have c0: "char_at ?h position = Inr (?h ! position)"
    by (simp add: char_at_def self_htmlLength_def)
  from assms c0 have is_lt: "?h ! position = CHR ''<''"
    by (auto simp: readTag_def split: if_splits)
  from assms c0 is_lt have lt1: "position + 1 < self_htmlLength self"
    by (auto simp: readTag_def char_at_def self_htmlLength_def split: if_splits)
  then have c1: "char_at ?h (position + 1) = Inr (?h ! (position + 1))"
    by (simp add: char_at_def self_htmlLength_def)
  define p1 where "p1 = (if ?h ! (position + 1) = CHR ''/'' then position + 2 else position + 1)"
  define p2 where "p2 = (if \<not> self_strict self then readWhitespace self p1 else p1)"
  define opn where "opn = (?h ! (position + 1) \<noteq> CHR ''/'')"
  define cls where "cls = (?h ! (position + 1) = CHR ''/'')"
  have p1: "position < p1" "p1 \<le> self_htmlLength self"
    using lt1 by (auto simp: p1_def)
  have p2: "p1 \<le> p2" "p2 \<le> self_htmlLength self"
    using readWhitespace_ge [of p1 self] readWhitespace_le [OF p1(2)] p1
    by (auto simp: p2_def)
  from assms c0 is_lt c1 obtain r where r: "readTagName self p2 = Some r"
    by (auto simp: readTag_def Let_def p1_def p2_def split: option.splits if_splits)
  from readTagName_bounds [OF r p2(2)] have rb: "p2 < r" "r \<le> self_htmlLength self"
    by simp_all
  let ?p3 = "readWhitespace self r"
  have p3: "r \<le> ?p3" "?p3 \<le> self_htmlLength self"
    using readWhitespace_ge [of r self] readWhitespace_le [OF rb(2)] by simp_all
  from assms c0 is_lt c1 r obtain p4 attrs
    where ra: "readTag_attributes self ?p3 [] = Inr (p4, attrs)"
    by (auto simp: readTag_def Let_def p1_def p2_def split: sum.splits if_splits)
  from readTag_attributes_bounds [OF ra p3(2)]
  have p4: "?p3 \<le> p4" "p4 \<le> self_htmlLength self" by simp_all
  from assms c0 is_lt c1 r ra have lt4: "p4 < self_htmlLength self"
    by (auto simp: readTag_def Let_def p1_def p2_def char_at_def self_htmlLength_def
        split: if_splits)
  then have c4: "char_at ?h p4 = Inr (?h ! p4)"
    by (simp add: char_at_def self_htmlLength_def)
  define p5 where "p5 = (if ?h ! p4 = CHR ''/'' then p4 + 1 else p4)"
  define p6 where "p6 = (if \<not> self_strict self then readWhitespace self p5 else p5)"
  have p5: "p4 \<le> p5" "p5 \<le> self_htmlLength self"
    using lt4 by (auto simp: p5_def)
  have p6: "p5 \<le> p6" "p6 \<le> self_htmlLength self"
    using readWhitespace_ge [of p5 self] readWhitespace_le [OF p5(2)] p5
    by (auto simp: p6_def)
  from assms c0 is_lt c1 r ra c4
  have lt6: "p6 < self_htmlLength self"
    by (auto simp: readTag_def Let_def p1_def p2_def p5_def p6_def char_at_def
        self_htmlLength_def split: if_splits)
  then have c6: "char_at ?h p6 = Inr (?h ! p6)"
    by (simp add: char_at_def self_htmlLength_def)
  from assms c0 is_lt c1 r ra c4 c6
  have seg: "is_element segment \<and> seg_start segment = position \<and> seg_end segment = p6 + 1 \<and>
             seg_text segment = slice ?h position (p6 + 1)"
    by (auto simp: readTag_def Let_def p1_def p2_def p5_def p6_def is_element_def
        split: if_splits)
  from p1 p2 rb p3 p4 p5 p6 lt6 seg show ?thesis by simp
qed

lemma readComment_bounds:
  assumes "readComment self position = Some segment"
  shows "seg_start segment = position \<and> position + 2 < seg_end segment \<and>
         seg_end segment \<le> self_htmlLength self \<and>
         seg_text segment = slice (self_html self) (seg_start segment) (seg_end segment)"
proof -
  from assms obtain found where f: "find (self_html self) ''-->'' (position + 4) = Some found"
    and seg: "segment = HTMLParserCommentSegment
                (slice (self_html self) position (found + 3)) position (found + 3)
                (strip (slice (self_html self) (position + 4) found))"
    by (auto simp: readComment_def Let_def split: if_splits option.splits)
  from find_bounds [OF f] seg show ?thesis by (simp add: self_htmlLength_def)
qed


text \<open>
  The loop of \<open>_readText\<close>: from each \<open><\<close> on, a comment and then a tag is tried; the
  result is the segment that ends the text run, or \<open>None\<close> when no \<open><\<close> is left.
\<close>

function readText_loop :: "HTMLParser \<Rightarrow> nat \<Rightarrow> error + HTMLParserSegment option" where
  "readText_loop self position0 =
     (case find (self_html self) ''<'' position0 of
        None \<Rightarrow> Inr None
      | Some position \<Rightarrow>
          (case readComment self position of
             Some segmentNext \<Rightarrow> Inr (Some segmentNext)
           | None \<Rightarrow>
               (case readTag self position of
                  Inl e \<Rightarrow> Inl e
                | Inr (Some segmentNext) \<Rightarrow> Inr (Some segmentNext)
                | Inr None \<Rightarrow> readText_loop self (position + 1))))"
  by pat_completeness auto
termination
proof (relation "measure (\<lambda>(self, position). self_htmlLength self - position)")
  fix self :: HTMLParser and position0 x2 :: nat
  assume "find (self_html self) ''<'' position0 = Some x2"
  from find_bounds [OF this]
  have "self_htmlLength self - (x2 + 1) < self_htmlLength self - position0"
    unfolding self_htmlLength_def by simp arith
  then show "((self, x2 + 1), (self, position0))
        \<in> measure (\<lambda>(self, position). self_htmlLength self - position)"
    by simp
qed simp

declare readText_loop.simps [simp del]

text \<open>
  \<open>_readText\<close> stores the segment that ends the text run in \<open>self._segmentNext\<close>; the
  model returns the parser with that field written.
\<close>

definition readText ::
  "HTMLParser \<Rightarrow> nat \<Rightarrow> error + (HTMLParserSegment option \<times> HTMLParser)" where
  "readText self position =
     (let start = position
      in case readText_loop self position of
           Inl e \<Rightarrow> Inl e
         | Inr (Some segmentNext) \<Rightarrow>
             (let end = seg_start segmentNext
              in Inr (Some (HTMLParserTextSegment
                        (strip (slice (self_html self) start end)) start end),
                      self\<lparr>self_segmentNext := Some segmentNext\<rparr>))
         | Inr None \<Rightarrow>
             if \<not> self_strict self then
               (let end = self_htmlLength self
                in Inr (Some (HTMLParserTextSegment
                          (strip (slice (self_html self) start end)) start end), self))
             else Inr (None, self))"

definition readSpecialContextTagEnd ::
  "HTMLParser \<Rightarrow> nat \<Rightarrow> string \<Rightarrow> error + HTMLParserSegment option" where
  "readSpecialContextTagEnd self position contextTag =
     (case readTag self position of
        Inl e \<Rightarrow> Inl e
      | Inr None \<Rightarrow> Inr None
      | Inr (Some segment) \<Rightarrow>
          if \<not> seg_open segment \<and> seg_close segment \<and> seg_name segment = contextTag
          then Inr (Some segment) else Inr None)"

function readSpecialContextText_loop ::
  "HTMLParser \<Rightarrow> nat \<Rightarrow> string \<Rightarrow> error + HTMLParserSegment option" where
  "readSpecialContextText_loop self position0 contextTag =
     (case find (self_html self) ''<'' position0 of
        None \<Rightarrow> Inr None
      | Some position \<Rightarrow>
          (case readSpecialContextTagEnd self position contextTag of
             Inl e \<Rightarrow> Inl e
           | Inr (Some segmentNext) \<Rightarrow> Inr (Some segmentNext)
           | Inr None \<Rightarrow> readSpecialContextText_loop self (position + 1) contextTag))"
  by pat_completeness auto
termination
proof (relation "measure (\<lambda>(self, position, contextTag). self_htmlLength self - position)")
  fix self :: HTMLParser and position0 x2 :: nat and contextTag :: string
  assume "find (self_html self) ''<'' position0 = Some x2"
  from find_bounds [OF this]
  have "self_htmlLength self - (x2 + 1) < self_htmlLength self - position0"
    unfolding self_htmlLength_def by simp arith
  then show "((self, x2 + 1, contextTag), (self, position0, contextTag))
        \<in> measure (\<lambda>(self, position, contextTag). self_htmlLength self - position)"
    by simp
qed simp

declare readSpecialContextText_loop.simps [simp del]

definition readSpecialContextText ::
  "HTMLParser \<Rightarrow> nat \<Rightarrow> string \<Rightarrow> error + (HTMLParserSegment option \<times> HTMLParser)" where
  "readSpecialContextText self position contextTag =
     (let start = position
      in case readSpecialContextText_loop self position contextTag of
           Inl e \<Rightarrow> Inl e
         | Inr (Some segmentNext) \<Rightarrow>
             (let end = seg_start segmentNext
              in Inr (Some (HTMLParserTextSegment
                        (strip (slice (self_html self) start end)) start end),
                      self\<lparr>self_segmentNext := Some segmentNext\<rparr>))
         | Inr None \<Rightarrow>
             if \<not> self_strict self then
               (let end = self_htmlLength self
                in Inr (Some (HTMLParserTextSegment
                          (strip (slice (self_html self) start end)) start end), self))
             else Inr (None, self))"

subsection \<open>\<open>next\<close>\<close>

text \<open>
  The test for the special context: the segment returned last is an element segment that
  is not a close and whose name is one of \<open>_contextSwitchTags\<close>; the result is that name.
\<close>

definition specialContext :: "HTMLParserSegment option \<Rightarrow> string option" where
  "specialContext segmentCurrent =
     (case segmentCurrent of
        Some (HTMLParserElementSegment _ _ _ name _ close _) \<Rightarrow>
          if \<not> close \<and> name \<in> set contextSwitchTags then Some name else None
      | _ \<Rightarrow> None)"

text \<open>The last three statements of \<open>next\<close>: record the segment and move behind it.\<close>

definition next_update ::
  "HTMLParser \<Rightarrow> HTMLParserSegment \<Rightarrow> error + (HTMLParserSegment option \<times> HTMLParser)" where
  "next_update self segment =
     Inr (Some segment,
          self\<lparr>self_segmentCurrent := Some segment, self_position := seg_end segment\<rparr>)"

definition parser_next ::
  "HTMLParser \<Rightarrow> error + (HTMLParserSegment option \<times> HTMLParser)" where
  "parser_next self0 =
     (let segmentCurrent = self_segmentCurrent self0;
          self = self0\<lparr>self_position := readWhitespace self0 (self_position self0)\<rparr>
      in if self_position self = self_htmlLength self then Inr (None, self)
         else
           (case self_segmentNext self of
              Some segment \<Rightarrow> next_update (self\<lparr>self_segmentNext := None\<rparr>) segment
            | None \<Rightarrow>
                (case specialContext segmentCurrent of
                   Some name \<Rightarrow>
                     (case readSpecialContextTagEnd self (self_position self) name of
                        Inl e \<Rightarrow> Inl e
                      | Inr (Some segment) \<Rightarrow> next_update self segment
                      | Inr None \<Rightarrow>
                          (case readSpecialContextText self (self_position self) name of
                             Inl e \<Rightarrow> Inl e
                           | Inr (Some segment, self') \<Rightarrow> next_update self' segment
                           | Inr (None, self') \<Rightarrow> Inr (None, self')))
                 | None \<Rightarrow>
                     (case readComment self (self_position self) of
                        Some segment \<Rightarrow> next_update self segment
                      | None \<Rightarrow>
                          (case readTag self (self_position self) of
                             Inl e \<Rightarrow> Inl e
                           | Inr (Some segment) \<Rightarrow> next_update self segment
                           | Inr None \<Rightarrow>
                               (case readText self (self_position self) of
                                  Inl e \<Rightarrow> Inl e
                                | Inr (Some segment, self') \<Rightarrow> next_update self' segment
                                | Inr (None, self') \<Rightarrow>
                                    if self_position self' = self_htmlLength self'
                                    then Inr (None, self')
                                    else Inl (UnparsableSegment (self_position self'))))))))"


subsection \<open>Every call of \<open>next\<close> that returns a segment moves on\<close>

lemma readTag_Inr_lt: "readTag self position = Inr r \<Longrightarrow> position < self_htmlLength self"
  by (auto simp: readTag_def char_at_def self_htmlLength_def split: if_splits)

lemma readSpecialContextTagEnd_Inr_lt:
  "readSpecialContextTagEnd self position contextTag = Inr r \<Longrightarrow>
   position < self_htmlLength self"
  by (auto simp: readSpecialContextTagEnd_def split: sum.splits dest: readTag_Inr_lt)

lemma readSpecialContextTagEnd_bounds:
  assumes "readSpecialContextTagEnd self position contextTag = Inr (Some segment)"
  shows "is_element segment \<and> seg_start segment = position \<and>
         position + 2 < seg_end segment \<and> seg_end segment \<le> self_htmlLength self \<and>
         seg_text segment = slice (self_html self) (seg_start segment) (seg_end segment)"
proof -
  from assms have "readTag self position = Inr (Some segment)"
    by (auto simp: readSpecialContextTagEnd_def split: sum.splits option.splits if_splits)
  then show ?thesis by (rule readTag_bounds)
qed

lemma readText_loop_bounds:
  "readText_loop self position = Inr (Some segmentNext) \<Longrightarrow>
   position \<le> seg_start segmentNext \<and> seg_start segmentNext + 2 < seg_end segmentNext \<and>
   seg_end segmentNext \<le> self_htmlLength self \<and>
   seg_text segmentNext =
     slice (self_html self) (seg_start segmentNext) (seg_end segmentNext)"
proof (induction self position rule: readText_loop.induct)
  case (1 self position0)
  from "1.prems" obtain position where f: "find (self_html self) ''<'' position0 = Some position"
    by (subst (asm) readText_loop.simps) (auto split: option.splits)
  from find_bounds [OF f] have ge: "position0 \<le> position" by simp
  show ?case
  proof (cases "readComment self position")
    case (Some c)
    with f "1.prems" have "segmentNext = c"
      by (subst (asm) readText_loop.simps) simp
    with readComment_bounds [OF Some] ge show ?thesis by simp
  next
    case None
    show ?thesis
    proof (cases "readTag self position")
      case (Inl e)
      with f None "1.prems" show ?thesis by (subst (asm) readText_loop.simps) simp
    next
      case (Inr r)
      show ?thesis
      proof (cases r)
        case (Some t)
        with f None Inr "1.prems" have "segmentNext = t"
          by (subst (asm) readText_loop.simps) simp
        with readTag_bounds [of self position t] Inr Some ge show ?thesis by simp
      next
        case no: None
        with f None Inr "1.prems"
        have "readText_loop self (position + 1) = Inr (Some segmentNext)"
          by (subst (asm) readText_loop.simps) simp
        from "1.IH" [OF f None Inr no this] ge show ?thesis by simp
      qed
    qed
  qed
qed

lemma readSpecialContextText_loop_bounds:
  "readSpecialContextText_loop self position contextTag = Inr (Some segmentNext) \<Longrightarrow>
   position \<le> seg_start segmentNext \<and> seg_start segmentNext + 2 < seg_end segmentNext \<and>
   seg_end segmentNext \<le> self_htmlLength self \<and>
   seg_text segmentNext =
     slice (self_html self) (seg_start segmentNext) (seg_end segmentNext)"
proof (induction self position contextTag rule: readSpecialContextText_loop.induct)
  case (1 self position0 contextTag)
  from "1.prems" obtain position where f: "find (self_html self) ''<'' position0 = Some position"
    by (subst (asm) readSpecialContextText_loop.simps) (auto split: option.splits)
  from find_bounds [OF f] have ge: "position0 \<le> position" by simp
  show ?case
  proof (cases "readSpecialContextTagEnd self position contextTag")
    case (Inl e)
    with f "1.prems" show ?thesis by (subst (asm) readSpecialContextText_loop.simps) simp
  next
    case (Inr r)
    show ?thesis
    proof (cases r)
      case (Some t)
      with f Inr "1.prems" have "segmentNext = t"
        by (subst (asm) readSpecialContextText_loop.simps) simp
      with readSpecialContextTagEnd_bounds [of self position contextTag t] Inr Some ge
      show ?thesis by simp
    next
      case no: None
      with f Inr "1.prems"
      have "readSpecialContextText_loop self (position + 1) contextTag = Inr (Some segmentNext)"
        by (subst (asm) readSpecialContextText_loop.simps) simp
      from "1.IH" [OF f Inr no this] ge show ?thesis by simp
    qed
  qed
qed

text \<open>
  What is left to read: behind the cached segment when there is one, behind the cursor
  otherwise.
\<close>

definition remaining :: "HTMLParser \<Rightarrow> nat" where
  "remaining self =
     (case self_segmentNext self of
        Some segmentNext \<Rightarrow> Suc (self_htmlLength self - seg_end segmentNext)
      | None \<Rightarrow> self_htmlLength self - self_position self)"

lemma readText_progress:
  assumes "readText self position = Inr (Some segment, self')"
    and "self_segmentNext self = None" and "position < self_htmlLength self"
  shows "remaining (self'\<lparr>self_segmentCurrent := Some segment,
                          self_position := seg_end segment\<rparr>)
         < self_htmlLength self - position
         \<and> self_html self' = self_html self \<and> self_strict self' = self_strict self"
proof (cases "readText_loop self position")
  case (Inl e)
  with assms show ?thesis by (simp add: readText_def)
next
  case (Inr r)
  show ?thesis
  proof (cases r)
    case None
    with Inr assms show ?thesis
      by (auto simp: readText_def remaining_def self_htmlLength_def Let_def split: if_splits)
  next
    case (Some c)
    from readText_loop_bounds [of self position c] Inr Some
    have b: "position \<le> seg_start c" "seg_start c + 2 < seg_end c"
      "seg_end c \<le> self_htmlLength self" by simp_all
    from Inr Some assms(1) have "self' = self\<lparr>self_segmentNext := Some c\<rparr>"
      by (auto simp: readText_def Let_def)
    with b show ?thesis
      by (auto simp: remaining_def self_htmlLength_def)
  qed
qed

lemma readSpecialContextText_progress:
  assumes "readSpecialContextText self position contextTag = Inr (Some segment, self')"
    and "self_segmentNext self = None" and "position < self_htmlLength self"
  shows "remaining (self'\<lparr>self_segmentCurrent := Some segment,
                          self_position := seg_end segment\<rparr>)
         < self_htmlLength self - position
         \<and> self_html self' = self_html self \<and> self_strict self' = self_strict self"
proof (cases "readSpecialContextText_loop self position contextTag")
  case (Inl e)
  with assms show ?thesis by (simp add: readSpecialContextText_def)
next
  case (Inr r)
  show ?thesis
  proof (cases r)
    case None
    with Inr assms show ?thesis
      by (auto simp: readSpecialContextText_def remaining_def self_htmlLength_def Let_def
          split: if_splits)
  next
    case (Some c)
    from readSpecialContextText_loop_bounds [of self position contextTag c] Inr Some
    have b: "position \<le> seg_start c" "seg_start c + 2 < seg_end c"
      "seg_end c \<le> self_htmlLength self" by simp_all
    from Inr Some assms(1) have "self' = self\<lparr>self_segmentNext := Some c\<rparr>"
      by (auto simp: readSpecialContextText_def Let_def)
    with b show ?thesis
      by (auto simp: remaining_def self_htmlLength_def)
  qed
qed

lemma parser_next_progress:
  assumes "parser_next self = Inr (Some segment, self')"
  shows "remaining self' < remaining self \<and>
         self_html self' = self_html self \<and> self_strict self' = self_strict self"
proof -
  define p where "p = readWhitespace self (self_position self)"
  define s1 where "s1 = self\<lparr>self_position := p\<rparr>"
  have pge: "self_position self \<le> p" unfolding p_def by (rule readWhitespace_ge)
  have len1 [simp]: "self_htmlLength s1 = self_htmlLength self"
    by (simp add: s1_def self_htmlLength_def)
  from assms have ne: "p \<noteq> self_htmlLength self"
    by (auto simp: parser_next_def Let_def p_def self_htmlLength_def split: if_splits)
  show ?thesis
  proof (cases "self_segmentNext self")
    case (Some c)
    with assms ne have "segment = c" and
      "self' = self\<lparr>self_position := p, self_segmentNext := None,
                     self_segmentCurrent := Some c, self_position := seg_end c\<rparr>"
      by (auto simp: parser_next_def Let_def p_def next_update_def self_htmlLength_def)
    with Some show ?thesis by (simp add: remaining_def self_htmlLength_def)
  next
    case None
    then have rem: "remaining self = self_htmlLength self - self_position self"
      by (simp add: remaining_def)
    have n1: "self_segmentNext s1 = None" using None by (simp add: s1_def)
    have hs: "self_html s1 = self_html self" "self_strict s1 = self_strict self"
      by (simp_all add: s1_def)
    show ?thesis
    proof (cases "specialContext (self_segmentCurrent self)")
      case (Some name)
      show ?thesis
      proof (cases "readSpecialContextTagEnd s1 p name")
        case (Inl e)
        with assms ne None Some show ?thesis
          by (simp add: parser_next_def Let_def p_def s1_def self_htmlLength_def)
      next
        case (Inr r)
        from readSpecialContextTagEnd_Inr_lt [OF Inr] have plt: "p < self_htmlLength self"
          by simp
        show ?thesis
        proof (cases r)
          case (Some t)
          with assms ne None \<open>specialContext (self_segmentCurrent self) = Some name\<close> Inr
          have "self' = s1\<lparr>self_segmentCurrent := Some t, self_position := seg_end t\<rparr>"
            by (auto simp: parser_next_def Let_def p_def s1_def next_update_def
                self_htmlLength_def)
          with readSpecialContextTagEnd_bounds [of s1 p name t] Inr Some pge None rem
          show ?thesis by (simp add: remaining_def s1_def self_htmlLength_def) arith
        next
          case no: None
          with assms ne None \<open>specialContext (self_segmentCurrent self) = Some name\<close> Inr
          obtain s2 where rt: "readSpecialContextText s1 p name = Inr (Some segment, s2)"
            and s': "self' = s2\<lparr>self_segmentCurrent := Some segment,
                                 self_position := seg_end segment\<rparr>"
            by (auto simp: parser_next_def Let_def p_def s1_def next_update_def
                self_htmlLength_def split: sum.splits option.splits prod.splits)
          from readSpecialContextText_progress [OF rt n1] plt s' hs
          have "remaining self' < self_htmlLength self - p"
            and "self_html self' = self_html self \<and> self_strict self' = self_strict self"
            by simp_all
          with pge rem show ?thesis by arith
        qed
      qed
    next
      case nsc: None
      show ?thesis
      proof (cases "readComment s1 p")
        case (Some c)
        with assms ne None nsc
        have "self' = s1\<lparr>self_segmentCurrent := Some c, self_position := seg_end c\<rparr>"
          by (auto simp: parser_next_def Let_def p_def s1_def next_update_def
              self_htmlLength_def)
        with readComment_bounds [OF Some] pge None rem
        show ?thesis by (simp add: remaining_def s1_def self_htmlLength_def) arith
      next
        case nc: None
        show ?thesis
        proof (cases "readTag s1 p")
          case (Inl e)
          with assms ne None nsc nc show ?thesis
            by (simp add: parser_next_def Let_def p_def s1_def self_htmlLength_def)
        next
          case (Inr r)
          from readTag_Inr_lt [OF Inr] have plt: "p < self_htmlLength self" by simp
          show ?thesis
          proof (cases r)
            case (Some t)
            with assms ne None nsc nc Inr
            have "self' = s1\<lparr>self_segmentCurrent := Some t, self_position := seg_end t\<rparr>"
              by (auto simp: parser_next_def Let_def p_def s1_def next_update_def
                  self_htmlLength_def)
            with readTag_bounds [of s1 p t] Inr Some pge None rem
            show ?thesis by (simp add: remaining_def s1_def self_htmlLength_def) arith
          next
            case no: None
            with assms ne None nsc nc Inr
            obtain s2 where rt: "readText s1 p = Inr (Some segment, s2)"
              and s': "self' = s2\<lparr>self_segmentCurrent := Some segment,
                                   self_position := seg_end segment\<rparr>"
              by (auto simp: parser_next_def Let_def p_def s1_def next_update_def
                  self_htmlLength_def split: sum.splits option.splits prod.splits if_splits)
            from readText_progress [OF rt n1] plt s' hs
            have "remaining self' < self_htmlLength self - p"
              and "self_html self' = self_html self \<and> self_strict self' = self_strict self"
              by simp_all
            with pge rem show ?thesis by arith
          qed
        qed
      qed
    qed
  qed
qed


section \<open>The node model and the tree builder (document.py)\<close>

text \<open>
  A node's \<open>parent\<close> is a back-reference that no operation modelled here reads, so the
  model leaves it out: a node is its own data and its children. \<open>NoneNode\<close> is Python's
  \<open>None\<close> where a node is expected: \<open>_createNode\<close> returns it for a segment it makes no
  node of.
\<close>

datatype HTMLNode =
    HTMLElementNode (node_name: string) (node_attributes: attributes)
      (node_children: "HTMLNode list")
  | HTMLTextNode (node_text: string)
  | HTMLCommentNode (node_comment: string)
  | NoneNode

record HTMLDocument =
  doc_text :: string
  doc_strict :: bool
  doc_comments :: bool
  doc_rootList :: "HTMLNode list"
  doc_doctype :: "HTMLNode option"
  doc_html :: "HTMLNode option"
  doc_head :: "HTMLNode option"
  doc_body :: "HTMLNode option"

definition voidTags :: "string list" where
  "voidTags = [''!doctype'', ''area'', ''base'', ''br'', ''col'', ''embed'', ''hr'', ''img'',
     ''input'', ''link'', ''meta'', ''source'', ''track'', ''wbr'']"

definition neverSelfClosing :: "string list" where
  "neverSelfClosing = [''script'', ''style'', ''html'', ''head'', ''body'']"

fun createNode :: "HTMLParserSegment \<Rightarrow> HTMLNode" where
  "createNode (HTMLParserElementSegment _ _ _ name open _ attributes) =
     (if open then HTMLElementNode name attributes [] else NoneNode)"
| "createNode (HTMLParserTextSegment text _ _) = HTMLTextNode text"
| "createNode (HTMLParserCommentSegment _ _ _ comment) = HTMLCommentNode comment"

text \<open>\<open>parent.children.append(node)\<close>; the parent is always an element node.\<close>

fun append_child :: "HTMLNode \<Rightarrow> HTMLNode \<Rightarrow> HTMLNode" where
  "append_child (HTMLElementNode name attributes children) node =
     HTMLElementNode name attributes (children @ [node])"
| "append_child parent node = parent"

text \<open>
  \<open>_loadChildren\<close> fills the children of \<open>parent\<close> in place and returns a segment or
  \<open>None\<close>; the model returns that response, the parent with its children, and the parser
  after the segments it has taken. The child node is appended to the parent before the
  recursive call fills it; the model appends it filled, which is the same list once the
  call has returned.
\<close>

function loadChildren ::
  "HTMLDocument \<Rightarrow> HTMLNode \<Rightarrow> HTMLParser \<Rightarrow>
   error + (HTMLParserSegment option \<times> HTMLNode \<times> HTMLParser)" where
  "loadChildren self parent parser =
     (case parser_next parser of
        Inl e \<Rightarrow> Inl e
      | Inr (None, parser') \<Rightarrow>
          if doc_strict self then Inl UnclosedElement else Inr (None, parent, parser')
      | Inr (Some segment, parser') \<Rightarrow>
          (case segment of
             HTMLParserElementSegment _ start _ name open close _ \<Rightarrow>
               if open then
                 (let node = createNode segment
                  in if \<not> close \<and> name \<notin> set voidTags then
                       (case loadChildren self node parser' of
                          Inl e \<Rightarrow> Inl e
                        | Inr (response, node', parser'') \<Rightarrow>
                            (case response of
                               Some _ \<Rightarrow>
                                 if name = node_name parent
                                 then Inr (None, append_child parent node', parser'')
                                 else Inr (Some segment, append_child parent node', parser'')
                             | None \<Rightarrow>
                                 loadChildren self (append_child parent node') parser''))
                     else loadChildren self (append_child parent node) parser')
               else if close then
                 (if name = node_name parent then Inr (None, parent, parser')
                  else Inr (Some segment, parent, parser'))
               else
                 (if doc_strict self then Inl (UnidentifiedTag start)
                  else loadChildren self parent parser')
           | HTMLParserTextSegment _ _ _ \<Rightarrow>
               loadChildren self (append_child parent (createNode segment)) parser'
           | HTMLParserCommentSegment _ _ _ _ \<Rightarrow>
               if doc_comments self
               then loadChildren self (append_child parent (createNode segment)) parser'
               else loadChildren self parent parser'))"
  by pat_completeness auto


lemma parser_next_remaining:
  assumes "parser_next self = Inr (r, self')"
  shows "remaining self' \<le> remaining self"
proof (cases r)
  case (Some segment)
  with parser_next_progress [of self segment self'] assms show ?thesis by simp
next
  case None
  define p where "p = readWhitespace self (self_position self)"
  have pge: "self_position self \<le> p" unfolding p_def by (rule readWhitespace_ge)
  from assms None have "self' = self\<lparr>self_position := p\<rparr>"
    by (auto simp: parser_next_def Let_def p_def next_update_def readText_def
        readSpecialContextText_def
        split: if_splits option.splits sum.splits prod.splits)
  with pge show ?thesis by (auto simp: remaining_def self_htmlLength_def split: option.splits)
qed

lemma loadChildren_remaining:
  "loadChildren_dom (self, parent, parser) \<Longrightarrow>
   loadChildren self parent parser = Inr (response, parent', parser') \<Longrightarrow>
   remaining parser' \<le> remaining parser"
proof (induction self parent parser arbitrary: response parent' parser' rule: loadChildren.pinduct)
  case (1 self parent parser)
  note psimp = loadChildren.psimps [OF "1.hyps"]
  from "1.prems" obtain x p1 where nx: "parser_next parser = Inr (x, p1)"
    by (subst (asm) psimp) (auto split: sum.splits)
  from parser_next_remaining [OF nx] have le1: "remaining p1 \<le> remaining parser" .
  show ?case
  proof (cases x)
    case None
    with nx "1.prems" le1 show ?thesis
      by (subst (asm) psimp) (auto split: if_splits)
  next
    case (Some segment)
    show ?thesis
    proof (cases segment)
      case (HTMLParserElementSegment t st en name opn cls attrs)
      show ?thesis
      proof (cases opn)
        case True
        show ?thesis
        proof (cases "\<not> cls \<and> name \<notin> set voidTags")
          case rec: True
          from "1.prems" nx Some HTMLParserElementSegment True rec
          obtain resp node' p2 where
            inner: "loadChildren self (createNode segment) p1 = Inr (resp, node', p2)"
            by (subst (asm) psimp) (auto split: sum.splits)
          from "1.IH"(1) [OF nx refl Some HTMLParserElementSegment True refl rec inner]
          have le2: "remaining p2 \<le> remaining p1" .
          show ?thesis
          proof (cases resp)
            case None
            with "1.prems" nx Some HTMLParserElementSegment True rec inner
            have "loadChildren self (append_child parent node') p2 =
                  Inr (response, parent', parser')"
              by (subst (asm) psimp) simp
            from "1.IH"(2) [OF nx refl Some HTMLParserElementSegment True refl rec inner
                refl refl None this] le1 le2
            show ?thesis by simp
          next
            case (Some a)
            with "1.prems" nx \<open>x = Some segment\<close> HTMLParserElementSegment True rec inner
            have "parser' = p2"
              by (subst (asm) psimp) (auto split: if_splits)
            with le1 le2 show ?thesis by simp
          qed
        next
          case norec: False
          with "1.prems" nx Some HTMLParserElementSegment True
          have "loadChildren self (append_child parent (createNode segment)) p1 =
                Inr (response, parent', parser')"
            by (subst (asm) psimp) (auto simp: Let_def)
          from "1.IH"(3) [OF nx refl Some HTMLParserElementSegment True refl norec this] le1
          show ?thesis by simp
        qed
      next
        case False
        show ?thesis
        proof (cases cls)
          case True
          with "1.prems" nx Some HTMLParserElementSegment False
          have "parser' = p1"
            by (subst (asm) psimp) (auto split: if_splits)
          with le1 show ?thesis by simp
        next
          case ncls: False
          with "1.prems" nx Some HTMLParserElementSegment False
          have ns: "\<not> doc_strict self" and
            "loadChildren self parent p1 = Inr (response, parent', parser')"
            by (subst (asm) psimp, auto split: if_splits)+
          from "1.IH"(4) [OF nx refl Some HTMLParserElementSegment False ncls ns this(2)] le1
          show ?thesis by simp
        qed
      qed
    next
      case (HTMLParserTextSegment t st en)
      with "1.prems" nx Some
      have "loadChildren self (append_child parent (createNode segment)) p1 =
            Inr (response, parent', parser')"
        by (subst (asm) psimp) simp
      from "1.IH"(5) [OF nx refl Some HTMLParserTextSegment] this le1
      show ?thesis by simp
    next
      case (HTMLParserCommentSegment t st en c)
      show ?thesis
      proof (cases "doc_comments self")
        case True
        with "1.prems" nx Some HTMLParserCommentSegment
        have "loadChildren self (append_child parent (createNode segment)) p1 =
              Inr (response, parent', parser')"
          by (subst (asm) psimp) simp
        from "1.IH"(6) [OF nx refl Some HTMLParserCommentSegment True] this le1
        show ?thesis by simp
      next
        case False
        with "1.prems" nx Some HTMLParserCommentSegment
        have "loadChildren self parent p1 = Inr (response, parent', parser')"
          by (subst (asm) psimp) simp
        from "1.IH"(7) [OF nx refl Some HTMLParserCommentSegment False] this le1
        show ?thesis by simp
      qed
    qed
  qed
qed

termination loadChildren
proof (relation "measure (\<lambda>(self, parent, parser). remaining parser)")
  fix self parent parser b x y x2 x11 x12 x13 x14 x15 x16 x17 xa ba xb ya xc yb
  assume nx: "parser_next parser = Inr b" "(x, y) = b" "x = Some x2"
    and inner: "loadChildren self xa y = Inr ba" "(xb, ya) = ba" "(xc, yb) = ya"
    and dom: "loadChildren_dom (self, xa, y)"
  from nx have "parser_next parser = Inr (Some x2, y)" by simp
  from parser_next_progress [OF this] have "remaining y < remaining parser" by simp
  moreover from inner have "loadChildren self xa y = Inr (xb, xc, yb)" by simp
  from loadChildren_remaining [OF dom this] have "remaining yb \<le> remaining y" .
  ultimately
  show "((self, append_child parent xc, yb), self, parent, parser)
        \<in> measure (\<lambda>(self, parent, parser). remaining parser)"
    by simp
qed (auto dest: parser_next_progress)

declare loadChildren.simps [simp del]


lemma loadChildren_remaining_total:
  "loadChildren self parent parser = Inr (response, parent', parser') \<Longrightarrow>
   remaining parser' \<le> remaining parser"
proof (induction self parent parser arbitrary: response parent' parser' rule: loadChildren.induct)
  case (1 self parent parser)
  note psimp = loadChildren.simps [of self parent parser]
  from "1.prems" obtain x p1 where nx: "parser_next parser = Inr (x, p1)"
    by (subst (asm) psimp) (auto split: sum.splits)
  from parser_next_remaining [OF nx] have le1: "remaining p1 \<le> remaining parser" .
  show ?case
  proof (cases x)
    case None
    with nx "1.prems" le1 show ?thesis
      by (subst (asm) psimp) (auto split: if_splits)
  next
    case (Some segment)
    show ?thesis
    proof (cases segment)
      case (HTMLParserElementSegment t st en name opn cls attrs)
      show ?thesis
      proof (cases opn)
        case True
        show ?thesis
        proof (cases "\<not> cls \<and> name \<notin> set voidTags")
          case rec: True
          from "1.prems" nx Some HTMLParserElementSegment True rec
          obtain resp node' p2 where
            inner: "loadChildren self (createNode segment) p1 = Inr (resp, node', p2)"
            by (subst (asm) psimp) (auto split: sum.splits)
          from "1.IH"(1) [OF nx refl Some HTMLParserElementSegment True refl rec inner]
          have le2: "remaining p2 \<le> remaining p1" .
          show ?thesis
          proof (cases resp)
            case None
            with "1.prems" nx Some HTMLParserElementSegment True rec inner
            have "loadChildren self (append_child parent node') p2 =
                  Inr (response, parent', parser')"
              by (subst (asm) psimp) simp
            from "1.IH"(2) [OF nx refl Some HTMLParserElementSegment True refl rec inner
                refl refl None this] le1 le2
            show ?thesis by simp
          next
            case (Some a)
            with "1.prems" nx \<open>x = Some segment\<close> HTMLParserElementSegment True rec inner
            have "parser' = p2"
              by (subst (asm) psimp) (auto split: if_splits)
            with le1 le2 show ?thesis by simp
          qed
        next
          case norec: False
          with "1.prems" nx Some HTMLParserElementSegment True
          have "loadChildren self (append_child parent (createNode segment)) p1 =
                Inr (response, parent', parser')"
            by (subst (asm) psimp) (auto simp: Let_def)
          from "1.IH"(3) [OF nx refl Some HTMLParserElementSegment True refl norec this] le1
          show ?thesis by simp
        qed
      next
        case False
        show ?thesis
        proof (cases cls)
          case True
          with "1.prems" nx Some HTMLParserElementSegment False
          have "parser' = p1"
            by (subst (asm) psimp) (auto split: if_splits)
          with le1 show ?thesis by simp
        next
          case ncls: False
          with "1.prems" nx Some HTMLParserElementSegment False
          have ns: "\<not> doc_strict self" and
            "loadChildren self parent p1 = Inr (response, parent', parser')"
            by (subst (asm) psimp, auto split: if_splits)+
          from "1.IH"(4) [OF nx refl Some HTMLParserElementSegment False ncls ns this(2)] le1
          show ?thesis by simp
        qed
      qed
    next
      case (HTMLParserTextSegment t st en)
      with "1.prems" nx Some
      have "loadChildren self (append_child parent (createNode segment)) p1 =
            Inr (response, parent', parser')"
        by (subst (asm) psimp) simp
      from "1.IH"(5) [OF nx refl Some HTMLParserTextSegment] this le1
      show ?thesis by simp
    next
      case (HTMLParserCommentSegment t st en c)
      show ?thesis
      proof (cases "doc_comments self")
        case True
        with "1.prems" nx Some HTMLParserCommentSegment
        have "loadChildren self (append_child parent (createNode segment)) p1 =
              Inr (response, parent', parser')"
          by (subst (asm) psimp) simp
        from "1.IH"(6) [OF nx refl Some HTMLParserCommentSegment True] this le1
        show ?thesis by simp
      next
        case False
        with "1.prems" nx Some HTMLParserCommentSegment
        have "loadChildren self parent p1 = Inr (response, parent', parser')"
          by (subst (asm) psimp) simp
        from "1.IH"(7) [OF nx refl Some HTMLParserCommentSegment False] this le1
        show ?thesis by simp
      qed
    qed
  qed
qed

text \<open>The loop of \<open>_load\<close> over the root level; it appends to \<open>self._rootList\<close>.\<close>

function load_loop :: "HTMLDocument \<Rightarrow> HTMLParser \<Rightarrow> error + HTMLDocument" where
  "load_loop self parser =
     (case parser_next parser of
        Inl e \<Rightarrow> Inl e
      | Inr (None, parser') \<Rightarrow> Inr self
      | Inr (Some segment, parser') \<Rightarrow>
          (case segment of
             HTMLParserElementSegment _ start _ name open close _ \<Rightarrow>
               if open then
                 (let node = createNode segment
                  in if \<not> close \<and> name \<notin> set voidTags then
                       (case loadChildren self node parser' of
                          Inl e \<Rightarrow> Inl e
                        | Inr (response, node', parser'') \<Rightarrow>
                            if response \<noteq> None \<and> doc_strict self
                            then Inl (UnmatchedCloseTag start)
                            else load_loop
                                   (self\<lparr>doc_rootList := doc_rootList self @ [node']\<rparr>)
                                   parser'')
                     else load_loop (self\<lparr>doc_rootList := doc_rootList self @ [node]\<rparr>)
                            parser')
               else if doc_strict self then Inl (StrayCloseTag start)
               else load_loop self parser'
           | HTMLParserTextSegment _ _ _ \<Rightarrow>
               load_loop (self\<lparr>doc_rootList := doc_rootList self @ [createNode segment]\<rparr>)
                 parser'
           | HTMLParserCommentSegment _ _ _ _ \<Rightarrow>
               if doc_comments self
               then load_loop
                      (self\<lparr>doc_rootList := doc_rootList self @ [createNode segment]\<rparr>)
                      parser'
               else Inl UnknownNodeType))"
  by pat_completeness auto
termination
proof (relation "measure (\<lambda>(self, parser). remaining parser)")
  fix self parser b x y x2 x11 x12 x13 x14 x15 x16 x17 xa x2a xb ya xc yb
  assume nx: "parser_next parser = Inr b" "(x, y) = b" "x = Some x2"
    and inner: "loadChildren self xa y = Inr x2a" "(xb, ya) = x2a" "(xc, yb) = ya"
  from nx have "parser_next parser = Inr (Some x2, y)" by simp
  from parser_next_progress [OF this] have "remaining y < remaining parser" by simp
  moreover from inner have "loadChildren self xa y = Inr (xb, xc, yb)" by simp
  from loadChildren_remaining_total [OF this] have "remaining yb \<le> remaining y" .
  ultimately
  show "((self\<lparr>doc_rootList := doc_rootList self @ [xc]\<rparr>, yb), self, parser)
        \<in> measure (\<lambda>(self, parser). remaining parser)"
    by simp
qed (auto dest: parser_next_progress)

declare load_loop.simps [simp del]

text \<open>
  \<open>_linkNodes\<close>: one pass over the root list for \<open>!doctype\<close> and \<open>html\<close>, and, when an
  \<open>html\<close> node was linked, one pass over its children for \<open>head\<close> and \<open>body\<close>. A later
  node that qualifies replaces an earlier one.
\<close>

fun linkNodes_root :: "HTMLDocument \<Rightarrow> (nat \<times> HTMLNode) \<Rightarrow> HTMLDocument" where
  "linkNodes_root self (index, HTMLElementNode name attributes children) =
     (let node = HTMLElementNode name attributes children
      in if name = ''!doctype'' then
           (if index = 0 \<or> \<not> doc_strict self then self\<lparr>doc_doctype := Some node\<rparr>
            else self)
         else if name = ''html'' then
           (if index \<in> set [0, 1] \<or> \<not> doc_strict self then self\<lparr>doc_html := Some node\<rparr>
            else self)
         else self)"
| "linkNodes_root self (index, node) = self"

fun linkNodes_html :: "HTMLDocument \<Rightarrow> (nat \<times> HTMLNode) \<Rightarrow> HTMLDocument" where
  "linkNodes_html self (index, HTMLElementNode name attributes children) =
     (let node = HTMLElementNode name attributes children
      in if name = ''head'' then
           (if index = 0 \<or> \<not> doc_strict self then self\<lparr>doc_head := Some node\<rparr>
            else self)
         else if name = ''body'' then
           (if index \<in> set [0, 1] \<or> \<not> doc_strict self then self\<lparr>doc_body := Some node\<rparr>
            else self)
         else self)"
| "linkNodes_html self (index, node) = self"

definition linkNodes :: "HTMLDocument \<Rightarrow> HTMLDocument" where
  "linkNodes self0 =
     (let self = foldl linkNodes_root self0 (enumerate 0 (doc_rootList self0))
      in case doc_html self of
           Some html \<Rightarrow> foldl linkNodes_html self (enumerate 0 (node_children html))
         | None \<Rightarrow> self)"

definition load :: "HTMLDocument \<Rightarrow> string \<Rightarrow> error + HTMLDocument" where
  "load self html =
     (let parser = HTMLParser_init html (doc_strict self)
      in case load_loop self parser of
           Inl e \<Rightarrow> Inl e
         | Inr self' \<Rightarrow> Inr (linkNodes self'))"

text \<open>The constructor \<open>HTMLDocument(html, strict, comments)\<close>.\<close>

definition HTMLDocument_init :: "string \<Rightarrow> bool \<Rightarrow> bool \<Rightarrow> error + HTMLDocument" where
  "HTMLDocument_init html strict comments =
     load \<lparr>doc_text = html, doc_strict = strict, doc_comments = comments, doc_rootList = [],
           doc_doctype = None, doc_html = None, doc_head = None, doc_body = None\<rparr> html"


section \<open>The serializer (\<open>HTMLDocument.write\<close>)\<close>

text \<open>
  \<open>AttributeError\<close> is what Python raises when \<open>node.html\<close> is read from \<open>None\<close>. It is
  a second error type because the tokenizer and the builder never raise it.
\<close>

datatype write_error = AttributeError

record write_options =
  pretty :: bool
  indent :: int
  tabs :: bool
  selfClosing :: bool
  shrinkText :: bool
  shrinkLimit :: int

text \<open>The defaults of \<open>write\<close>'s keyword arguments.\<close>

definition write_defaults :: write_options where
  "write_defaults =
     \<lparr>pretty = True, indent = 2, tabs = False, selfClosing = True, shrinkText = True,
      shrinkLimit = 20\<rparr>"

text \<open>\<open>"".rjust(n, c)\<close>: \<open>n\<close> copies of \<open>c\<close>, none when \<open>n\<close> is negative.\<close>

definition rjust_empty :: "int \<Rightarrow> char \<Rightarrow> string" where
  "rjust_empty n c = replicate (nat n) c"

text \<open>The loop over \<open>node.attributes.items()\<close>, the same in both branches of \<open>writeNode\<close>.\<close>

definition write_attributes :: "string \<Rightarrow> attributes \<Rightarrow> string" where
  "write_attributes name attributes =
     concat (map (\<lambda>(key, value).
        if name = ''!doctype'' \<and> value = ''true'' then '' '' @ key
        else '' '' @ key @ ''=\"'' @ value @ ''\"'') attributes)"

definition write_name :: "string \<Rightarrow> string" where
  "write_name name = (if name = ''!doctype'' then upper name else name)"

text \<open>The property \<open>html\<close> of a text node and of a comment node.\<close>

fun node_html :: "HTMLNode \<Rightarrow> write_error + string" where
  "node_html (HTMLTextNode text) = Inr text"
| "node_html (HTMLCommentNode comment) = Inr (''<!-- '' @ comment @ '' -->'')"
| "node_html _ = Inl AttributeError"

text \<open>
  \<open>writeNode\<close> is a loop over the siblings with a recursive call for the children of each
  element. \<open>writeNode\<close> below is the loop, with \<open>first\<close> as the loop carries it, and
  \<open>writeNode_node\<close> is the loop body after the newline and the indentation.
\<close>

fun writeNode :: "write_options \<Rightarrow> nat \<Rightarrow> bool \<Rightarrow> HTMLNode list \<Rightarrow> write_error + string"
  and writeNode_node ::
    "write_options \<Rightarrow> nat \<Rightarrow> bool \<Rightarrow> string \<Rightarrow> HTMLNode \<Rightarrow> write_error + string" where
  "writeNode opts depth first [] = Inr []"
| "writeNode opts depth first (node # nodeList) =
     (let prefix = (if pretty opts then
                      (if tabs opts then rjust_empty (int depth) CHR 0x09
                       else rjust_empty (int depth * indent opts) CHR '' '')
                    else []);
          lead = (if pretty opts then (if first then [] else [CHR 0x0D, CHR 0x0A]) @ prefix
                  else []);
          first = (if pretty opts then False else first)
      in case writeNode_node opts depth first prefix node of
           Inl e \<Rightarrow> Inl e
         | Inr body \<Rightarrow>
             (case writeNode opts depth first nodeList of
                Inl e \<Rightarrow> Inl e
              | Inr rest \<Rightarrow> Inr (lead @ body @ rest)))"
| "writeNode_node opts depth first prefix (HTMLElementNode name attributes children) =
     (if name \<notin> set neverSelfClosing \<and>
         (name \<in> set voidTags \<or> (selfClosing opts \<and> length children = 0))
      then
        Inr (''<'' @ write_name name @ write_attributes name attributes @
             (if name \<notin> set voidTags
              then (if length attributes > 0 then '' '' else []) @ ''/''
              else []) @
             ''>'')
      else
        (case (if shrinkText opts \<and> length children = 1 \<and>
                  (case hd children of HTMLTextNode _ \<Rightarrow> True | _ \<Rightarrow> False) \<and>
                  int (length (node_text (hd children))) \<le> shrinkLimit opts
               then Inr (node_text (hd children))
               else
                 (case writeNode opts (depth + 1) first children of
                    Inl e \<Rightarrow> Inl e
                  | Inr inner \<Rightarrow>
                      Inr (inner @ (if pretty opts then [CHR 0x0D, CHR 0x0A] @ prefix else []))))
         of
           Inl e \<Rightarrow> Inl e
         | Inr content \<Rightarrow>
             Inr (''<'' @ write_name name @ write_attributes name attributes @ ''>'' @
                  content @ ''</'' @ name @ ''>'')))"
| "writeNode_node opts depth first prefix node = node_html node"


section \<open>Queries on element nodes\<close>

text \<open>\<open>s.split(" ")\<close>: the pieces of \<open>s\<close> between single spaces, empty pieces included.\<close>

fun split_space :: "string \<Rightarrow> string list" where
  "split_space [] = [[]]"
| "split_space (c # cs) =
     (if c = CHR '' '' then [] # split_space cs
      else (case split_space cs of
              piece # pieces \<Rightarrow> (c # piece) # pieces
            | [] \<Rightarrow> [[c]]))"

text \<open>\<open>hasClass\<close> is a method of element nodes; \<open>"class" in self.attributes\<close> and the lookup.\<close>

definition hasClass :: "HTMLNode \<Rightarrow> string \<Rightarrow> bool" where
  "hasClass self className =
     (case map_of (node_attributes self) ''class'' of
        Some value \<Rightarrow> (let classList = split_space value in className \<in> set classList)
      | None \<Rightarrow> False)"

definition is_element_node :: "HTMLNode \<Rightarrow> bool" where
  "is_element_node node = (case node of HTMLElementNode _ _ _ \<Rightarrow> True | _ \<Rightarrow> False)"

text \<open>
  \<open>searchRecursive\<close> appends to the list \<open>results\<close> it is given and returns whether the
  search goes on; the model returns both. \<open>searchRecursive_children\<close> is its loop over the
  children. \<open>maxDepth\<close> and \<open>maxResults\<close> are optional Python integers.
\<close>

fun searchRecursive ::
    "HTMLNode list \<Rightarrow> HTMLNode \<Rightarrow> (HTMLNode \<Rightarrow> bool) \<Rightarrow> int option \<Rightarrow> int option \<Rightarrow>
     bool \<times> HTMLNode list"
  and searchRecursive_children ::
    "HTMLNode list \<Rightarrow> HTMLNode list \<Rightarrow> (HTMLNode \<Rightarrow> bool) \<Rightarrow> int option \<Rightarrow> int option \<Rightarrow>
     bool \<times> HTMLNode list" where
  "searchRecursive results0 node filter' depthRemaining0 maxResults =
     (let results = (if filter' node then results0 @ [node] else results0)
      in if filter' node \<and>
            (case maxResults of Some m \<Rightarrow> int (length results) \<ge> m | None \<Rightarrow> False)
         then (False, results)
         else
           (case node of
              HTMLElementNode _ _ children \<Rightarrow>
                (let depthRemaining = map_option (\<lambda>d. d - 1) depthRemaining0
                 in if (case depthRemaining of None \<Rightarrow> True | Some d \<Rightarrow> d \<ge> 0)
                    then searchRecursive_children results children filter' depthRemaining
                           maxResults
                    else (True, results))
            | _ \<Rightarrow> (True, results)))"
| "searchRecursive_children results [] filter' depthRemaining maxResults = (True, results)"
| "searchRecursive_children results (child # children) filter' depthRemaining maxResults =
     (case searchRecursive results child filter' depthRemaining maxResults of
        (False, results') \<Rightarrow> (False, results')
      | (True, results') \<Rightarrow>
          searchRecursive_children results' children filter' depthRemaining maxResults)"

definition search ::
  "HTMLNode \<Rightarrow> (HTMLNode \<Rightarrow> bool) \<Rightarrow> int option \<Rightarrow> int option \<Rightarrow> HTMLNode list" where
  "search self filter' maxDepth maxResults =
     snd (searchRecursive [] self filter' maxDepth maxResults)"

definition getElementsByClassName :: "HTMLNode \<Rightarrow> string \<Rightarrow> HTMLNode list" where
  "getElementsByClassName self className =
     search self (\<lambda>node. is_element_node node \<and> hasClass node className) None None"


section \<open>Attribute names in strict and in lenient mode\<close>

lemma readTagAttributeProperty_loop_never_rejects:
  "readTagAttributeProperty_loop self position \<noteq> Inl ()"
proof (induction self position rule: readTagAttributeProperty_loop.induct)
  case (1 self position)
  show ?case
  proof (cases "position < self_htmlLength self \<and>
      \<not> (isspace (self_html self ! position) \<or> self_html self ! position \<in> set ''=/>'')")
    case True
    with "1.IH" [OF _ refl] have "readTagAttributeProperty_loop self (position + 1) \<noteq> Inl ()"
      by (simp add: method_truth_def)
    with True show ?thesis
      by (subst readTagAttributeProperty_loop.simps) (simp add: method_truth_def Let_def)
  next
    case False
    then show ?thesis
      by (subst readTagAttributeProperty_loop.simps) (auto simp: Let_def)
  qed
qed

lemma readTagAttributeProperty_loop_strict:
  "readTagAttributeProperty_loop (self\<lparr>self_strict := b\<rparr>) position =
   readTagAttributeProperty_loop self position"
proof (induction self position rule: readTagAttributeProperty_loop.induct)
  case (1 self position)
  let ?s = "self\<lparr>self_strict := b\<rparr>"
  have len: "self_htmlLength ?s = self_htmlLength self" by (simp add: self_htmlLength_def)
  show ?case
  proof (cases "position < self_htmlLength self \<and>
      \<not> (isspace (self_html self ! position) \<or> self_html self ! position \<in> set ''=/>'')")
    case True
    with "1.IH" [OF _ refl]
    have IH: "readTagAttributeProperty_loop ?s (position + 1) =
              readTagAttributeProperty_loop self (position + 1)"
      by (simp add: method_truth_def)
    have "readTagAttributeProperty_loop ?s position =
          readTagAttributeProperty_loop ?s (position + 1)"
      using True len
      by (subst readTagAttributeProperty_loop.simps) (simp add: method_truth_def Let_def)
    moreover have "readTagAttributeProperty_loop self position =
          readTagAttributeProperty_loop self (position + 1)"
      using True
      by (subst readTagAttributeProperty_loop.simps) (simp add: method_truth_def Let_def)
    ultimately show ?thesis using IH by simp
  next
    case False
    have "readTagAttributeProperty_loop ?s position = Inr position"
      using False len
      by (subst readTagAttributeProperty_loop.simps) (auto simp: Let_def)
    moreover have "readTagAttributeProperty_loop self position = Inr position"
      using False
      by (subst readTagAttributeProperty_loop.simps) (auto simp: Let_def)
    ultimately show ?thesis by simp
  qed
qed

text \<open>
  Claim C10. Reading an unquoted attribute name gives the same result in strict mode as
  in lenient mode: wherever the character at \<open>position\<close> is not a quote (or there is no
  character there), \<open>_readTagAttributeProperty\<close> returns the same value, or raises the same
  \<open>IndexError\<close>, with \<open>strict\<close> true and with \<open>strict\<close> false; and the loop over an unquoted
  name never leaves through its strict-mode rejection, at any position, in either mode.
\<close>

theorem C10_unquoted_name_strict_equals_lenient:
  assumes "\<not> (position < length (self_html self) \<and> is_quote (self_html self ! position))"
  shows "readTagAttributeProperty (self\<lparr>self_strict := True\<rparr>) position =
         readTagAttributeProperty (self\<lparr>self_strict := False\<rparr>) position
         \<and> (\<forall>strict p. readTagAttributeProperty_loop (self\<lparr>self_strict := strict\<rparr>) p \<noteq> Inl ())"
  using assms
  by (auto simp: readTagAttributeProperty_def char_at_def readTagAttributeProperty_loop_strict
      readTagAttributeProperty_loop_never_rejects)

theorem C10_unquoted_name_strict_equals_lenient_witness:
  "\<not> (0 < length (self_html (HTMLParser_init ''a$b=1'' False)) \<and>
      is_quote (self_html (HTMLParser_init ''a$b=1'' False) ! 0)) \<and>
   readTagAttributeProperty (HTMLParser_init ''a$b=1'' True) 0 = Inr (Some 3) \<and>
   readTagAttributeProperty (HTMLParser_init ''a$b=1'' False) 0 = Inr (Some 3)"
proof -
  have h: "\<not> (0 < length (self_html (HTMLParser_init ''a$b=1'' False)) \<and>
      is_quote (self_html (HTMLParser_init ''a$b=1'' False) ! 0))"
    by (simp add: HTMLParser_init_def is_quote_def)
  have l: "readTagAttributeProperty (HTMLParser_init ''a$b=1'' False) 0 = Inr (Some 3)"
    by code_simp
  have e: "(HTMLParser_init ''a$b=1'' False)\<lparr>self_strict := True\<rparr> = HTMLParser_init ''a$b=1'' True"
    "(HTMLParser_init ''a$b=1'' False)\<lparr>self_strict := False\<rparr> = HTMLParser_init ''a$b=1'' False"
    by (simp_all add: HTMLParser_init_def)
  from C10_unquoted_name_strict_equals_lenient [OF h] l e h show ?thesis by simp
qed


section \<open>Attributes without a value\<close>

lemma write_attributes_plain:
  "name \<noteq> ''!doctype'' \<Longrightarrow>
   write_attributes name attributes =
   concat (map (\<lambda>(key, value). '' '' @ key @ ''=\"'' @ value @ ''\"'') attributes)"
  by (simp add: write_attributes_def)

lemma writeNode_node_element_prefix:
  assumes "writeNode_node opts depth first prefix (HTMLElementNode name attributes children) = Inr out"
  shows "\<exists>rest. out = ''<'' @ write_name name @ write_attributes name attributes @ rest"
  using assms by (auto split: if_splits sum.splits)

text \<open>
  Claim C9. An attribute written without a value is stored with the string \<open>true\<close>:
  whenever \<open>_readTagAttribute\<close> succeeds, in either mode, at a place where the character
  after the name (and any whitespace) is not \<open>=\<close>, the dictionary it leaves is the one it
  was given with the name set to \<open>true\<close>, exactly what storing an explicit value \<open>true\<close>
  does. The serializer writes an attribute of value \<open>true\<close> as a bare name for the
  \<open>!doctype\<close> node only: for any other element every attribute, that one included, is
  written as \<open>name="value"\<close>, and this is how the element's tag starts.
\<close>

theorem C9_bare_attribute_stored_as_true:
  assumes "readTagAttribute self position attributes = Inr (Some (result, attributes'))"
    and "readTagAttributeProperty self (readWhitespace self position) = Inr (Some name_end)"
    and "char_at (self_html self) (readWhitespace self name_end) = Inr c"
    and "c \<noteq> CHR ''=''"
    and "name = lower (strip (unwrap (slice (self_html self) (readWhitespace self position) name_end)))"
    and "tag \<noteq> ''!doctype''"
  shows "attributes' = AList.update name ''true'' attributes \<and>
         map_of attributes' name = Some ''true'' \<and>
         write_attributes tag [(name, ''true'')] = '' '' @ name @ ''=\"true\"'' \<and>
         write_attributes ''!doctype'' [(name, ''true'')] = '' '' @ name \<and>
         write_attributes tag attributes' =
           concat (map (\<lambda>(key, value). '' '' @ key @ ''=\"'' @ value @ ''\"'') attributes') \<and>
         (writeNode_node opts depth first prefix (HTMLElementNode tag attributes' children) = Inr out
          \<longrightarrow> (\<exists>rest. out = ''<'' @ tag @ write_attributes tag attributes' @ rest))"
proof -
  from assms(1-5) have a: "attributes' = AList.update name ''true'' attributes"
    by (auto simp: readTagAttribute_def Let_def split: if_splits)
  then have b: "map_of attributes' name = Some ''true''"
    by (simp add: update_conv')
  from assms(6) have c: "write_attributes tag [(name, ''true'')] = '' '' @ name @ ''=\"true\"''"
    by (simp add: write_attributes_def)
  have d: "write_attributes ''!doctype'' [(name, ''true'')] = '' '' @ name"
    by (simp add: write_attributes_def)
  from assms(6) have e: "write_attributes tag attributes' =
         concat (map (\<lambda>(key, value). '' '' @ key @ ''=\"'' @ value @ ''\"'') attributes')"
    by (rule write_attributes_plain)
  from assms(6) have f: "writeNode_node opts depth first prefix (HTMLElementNode tag attributes' children) = Inr out
         \<longrightarrow> (\<exists>rest. out = ''<'' @ tag @ write_attributes tag attributes' @ rest)"
    using writeNode_node_element_prefix [of opts depth first prefix tag attributes' children out]
    by (simp add: write_name_def)
  from a b c d e f show ?thesis by blast
qed

theorem C9_bare_attribute_stored_as_true_witness:
  "readTagAttribute (HTMLParser_init ''<a b>'' False) 2 [] = Inr (Some (4, [(''b'', ''true'')])) \<and>
   readTag (HTMLParser_init ''<a b>'' False) 0 =
     Inr (Some (HTMLParserElementSegment ''<a b>'' 0 5 ''a'' True False [(''b'', ''true'')])) \<and>
   readTag (HTMLParser_init ''<a b=\"true\">'' False) 0 =
     Inr (Some (HTMLParserElementSegment ''<a b=\"true\">'' 0 12 ''a'' True False
            [(''b'', ''true'')])) \<and>
   writeNode_node (write_defaults\<lparr>pretty := False, shrinkText := False\<rparr>) 0 True []
     (HTMLElementNode ''a'' [(''b'', ''true'')] []) = Inr ''<a b=\"true\" />'' \<and>
   write_attributes ''a'' [(''b'', ''true'')] = '' b=\"true\"'' \<and>
   write_attributes ''!doctype'' [(''b'', ''true'')] = '' b''"
proof -
  let ?self = "HTMLParser_init ''<a b>'' False"
  have h1: "readTagAttribute ?self 2 [] = Inr (Some (4, [(''b'', ''true'')]))"
    by code_simp
  have h2: "readTagAttributeProperty ?self (readWhitespace ?self 2) = Inr (Some 4)"
    by code_simp
  have h3: "char_at (self_html ?self) (readWhitespace ?self 4) = Inr CHR ''>''"
    by code_simp
  have h4: "CHR ''>'' \<noteq> CHR ''=''" by simp
  have h5: "''b'' = lower (strip (unwrap (slice (self_html ?self) (readWhitespace ?self 2) 4)))"
    by code_simp
  have h6: "''a'' \<noteq> ''!doctype''" by simp
  have t1: "readTag ?self 0 =
     Inr (Some (HTMLParserElementSegment ''<a b>'' 0 5 ''a'' True False [(''b'', ''true'')]))"
    by code_simp
  have t2: "readTag (HTMLParser_init ''<a b=\"true\">'' False) 0 =
     Inr (Some (HTMLParserElementSegment ''<a b=\"true\">'' 0 12 ''a'' True False
            [(''b'', ''true'')]))"
    by code_simp
  have w: "writeNode_node (write_defaults\<lparr>pretty := False, shrinkText := False\<rparr>) 0 True []
     (HTMLElementNode ''a'' [(''b'', ''true'')] []) = Inr ''<a b=\"true\" />''"
    by code_simp
  from C9_bare_attribute_stored_as_true [OF h1 h2 h3 h4 h5 h6] h1 t1 t2 w
  show ?thesis by simp
qed


section \<open>Search: order, depth and result count\<close>

text \<open>
  The reference order: a node, then, when the depth allows, its children's listings from
  left to right. This is the depth-first pre-order of the nodes that lie at most
  \<open>maxDepth\<close> generations below the start.
\<close>

fun preorder :: "int option \<Rightarrow> HTMLNode \<Rightarrow> HTMLNode list" where
  "preorder d (HTMLElementNode name attributes children) =
     HTMLElementNode name attributes children #
     (if (case d of None \<Rightarrow> True | Some x \<Rightarrow> x - 1 \<ge> 0)
      then concat (map (preorder (map_option (\<lambda>x. x - 1) d)) children)
      else [])"
| "preorder d node = [node]"

lemma searchRecursive_unbounded:
  "k = None \<Longrightarrow>
   searchRecursive results0 node f d k = (True, results0 @ filter f (preorder d node))"
  "k = None \<Longrightarrow>
   searchRecursive_children results0 children f d k =
     (True, results0 @ filter f (concat (map (preorder d) children)))"
proof (induction results0 node f d k and results0 children f d k
       rule: searchRecursive_searchRecursive_children.induct)
  case (1 results0 node f d k)
  show ?case
  proof (cases node)
    case (HTMLElementNode name attributes children)
    with "1.prems" "1.IH" [OF refl _ HTMLElementNode refl] show ?thesis
      by (auto split: option.splits)
  next
    case (HTMLTextNode t)
    with "1.prems" show ?thesis by auto
  next
    case (HTMLCommentNode c)
    with "1.prems" show ?thesis by auto
  next
    case NoneNode
    with "1.prems" show ?thesis by auto
  qed
next
  case (2 results f d k)
  show ?case by simp
next
  case (3 results child children f d k)
  then show ?case by simp
qed

lemma searchRecursive_capped:
  "k = Some m \<Longrightarrow> int (length results0) < m \<Longrightarrow>
   searchRecursive results0 node f d k =
     (let R = results0 @ take (nat m - length results0) (filter f (preorder d node))
      in (int (length R) < m, R))"
  "k = Some m \<Longrightarrow> int (length results0) < m \<Longrightarrow>
   searchRecursive_children results0 children f d k =
     (let R = results0 @ take (nat m - length results0)
                (filter f (concat (map (preorder d) children)))
      in (int (length R) < m, R))"
proof (induction results0 node f d k and results0 children f d k
       rule: searchRecursive_searchRecursive_children.induct)
  case (1 results0 node f d k)
  note k = "1.prems"(1) and lt = "1.prems"(2)
  show ?case
  proof (cases node)
    case (HTMLElementNode name attributes children)
    show ?thesis
    proof (cases "f node")
      case True
      show ?thesis
      proof (cases "int (length results0) + 1 \<ge> m")
        case True
        with lt have "nat m - length results0 = 1" by arith
        with True \<open>f node\<close> k lt HTMLElementNode show ?thesis
          by (auto simp: Let_def)
      next
        case False
        then have lt': "int (length (results0 @ [node])) < m" by simp
        from False lt have ar: "nat m - length results0 = Suc (nat m - Suc (length results0))"
          by arith
        show ?thesis
        proof (cases "case map_option (\<lambda>d. d - 1) d of None \<Rightarrow> True | Some d \<Rightarrow> d \<ge> 0")
          case go: True
          from "1.IH" [OF refl _ HTMLElementNode refl go k] \<open>f node\<close> False k lt'
          have "searchRecursive_children (results0 @ [node]) children f
                  (map_option (\<lambda>d. d - 1) d) k =
                (let R = (results0 @ [node]) @ take (nat m - length (results0 @ [node]))
                     (filter f (concat (map (preorder (map_option (\<lambda>d. d - 1) d)) children)))
                 in (int (length R) < m, R))"
            by auto
          with go \<open>f node\<close> False k lt HTMLElementNode ar show ?thesis
            by (auto simp: Let_def split: option.splits)
        next
          case stop: False
          with \<open>f node\<close> False k lt HTMLElementNode ar show ?thesis
            by (auto simp: Let_def split: option.splits)
        qed
      qed
    next
      case False
      show ?thesis
      proof (cases "case map_option (\<lambda>d. d - 1) d of None \<Rightarrow> True | Some d \<Rightarrow> d \<ge> 0")
        case go: True
        from "1.IH" [OF refl _ HTMLElementNode refl go k] False k lt
        have "searchRecursive_children results0 children f (map_option (\<lambda>d. d - 1) d) k =
                (let R = results0 @ take (nat m - length results0)
                     (filter f (concat (map (preorder (map_option (\<lambda>d. d - 1) d)) children)))
                 in (int (length R) < m, R))"
          by auto
        with go False k lt HTMLElementNode show ?thesis
          by (auto simp: Let_def split: option.splits)
      next
        case stop: False
        with False k lt HTMLElementNode show ?thesis
          by (auto simp: Let_def split: option.splits)
      qed
    qed
  next
    case (HTMLTextNode t)
    with "1.prems" show ?thesis by (auto simp: Let_def)
  next
    case (HTMLCommentNode c)
    with "1.prems" show ?thesis by (auto simp: Let_def)
  next
    case NoneNode
    with "1.prems" show ?thesis by (auto simp: Let_def)
  qed
next
  case (2 results f d k)
  then show ?case by simp
next
  case (3 results child children f d k)
  note k = "3.prems"(1) and lt = "3.prems"(2)
  let ?A = "filter f (preorder d child)"
  let ?B = "filter f (concat (map (preorder d) children))"
  let ?R1 = "results @ take (nat m - length results) ?A"
  from "3.IH"(1) [OF k lt]
  have s1: "searchRecursive results child f d k = (int (length ?R1) < m, ?R1)"
    by (simp add: Let_def)
  show ?case
  proof (cases "int (length ?R1) < m")
    case True
    then have all: "take (nat m - length results) ?A = ?A" by (simp add: min_def split: if_splits) 
    from "3.IH"(2) [OF s1 [symmetric] _ k True] True
    have "searchRecursive_children ?R1 children f d k =
          (let R = ?R1 @ take (nat m - length ?R1) ?B in (int (length R) < m, R))"
      by simp
    with s1 True all lt show ?thesis
      by (simp add: Let_def take_add) 
  next
    case False
    then have "nat m - length results \<le> length ?A" by (simp add: min_def split: if_splits) 
    with s1 False show ?thesis by (simp add: Let_def)
  qed
qed


lemma search_unbounded:
  "search self f maxDepth None = filter f (preorder maxDepth self)"
  by (simp only: search_def searchRecursive_unbounded(1) [OF refl] snd_conv append_Nil)

lemma search_capped:
  "1 \<le> m \<Longrightarrow> search self f maxDepth (Some m) = take (nat m) (filter f (preorder maxDepth self))"
proof -
  assume "1 \<le> m"
  then have "int (length ([] :: HTMLNode list)) < m" by simp
  from searchRecursive_capped(1) [OF refl this, of self f maxDepth]
  show ?thesis by (simp only: search_def Let_def snd_conv append_Nil list.size minus_nat.diff_0)
qed

lemma search_cap_not_positive:
  assumes "f (HTMLElementNode name attributes children)" and "m \<le> 0"
  shows "search (HTMLElementNode name attributes children) f maxDepth (Some m) =
         [HTMLElementNode name attributes children]"
  using assms by (simp add: search_def)

text \<open>
  Claim C7 holds for every result count from 1 on (\<open>search_capped\<close>: the matches of the
  depth-limited pre-order, cut after \<open>maxResults\<close>), and fails for the count 0: the cap
  is tested only after a match has been appended, so the first match is returned although
  no result was asked for. \<open>search\<close> is a method of element nodes: here it is called on
  the element \<open>a\<close>, alone and with a child \<open>b\<close>, with a filter that accepts every node,
  no depth limit and \<open>maxResults = 0\<close>, and it returns \<open>a\<close>, one result where at most
  none may be returned.
\<close>

theorem C7_maxResults_zero_returns_a_result:
  "search (HTMLElementNode ''a'' [] []) (\<lambda>node. True) None (Some 0) =
     [HTMLElementNode ''a'' [] []] \<and>
   int (length (search (HTMLElementNode ''a'' [] []) (\<lambda>node. True) None (Some 0))) > 0 \<and>
   search (HTMLElementNode ''a'' [] [HTMLElementNode ''b'' [] []]) (\<lambda>node. True) None
     (Some 0) = [HTMLElementNode ''a'' [] [HTMLElementNode ''b'' [] []]]"
  by (simp add: search_def)


section \<open>Class matching\<close>

text \<open>The inverse of \<open>split(" ")\<close>: \<open>" ".join(pieces)\<close>.\<close>

fun join_space :: "string list \<Rightarrow> string" where
  "join_space [] = []"
| "join_space [p] = p"
| "join_space (p # q # ps) = p @ CHR '' '' # join_space (q # ps)"

lemma split_space_nonempty: "split_space v \<noteq> []"
  by (induction v) (auto split: list.splits)

lemma split_space_no_space: "p \<in> set (split_space v) \<Longrightarrow> CHR '' '' \<notin> set p"
proof (induction v arbitrary: p)
  case Nil
  then show ?case by simp
next
  case (Cons x xs)
  obtain q qs where q: "split_space xs = q # qs"
    using split_space_nonempty [of xs] by (cases "split_space xs") auto
  with Cons show ?case by (auto split: if_splits)
qed

lemma join_split_space: "join_space (split_space v) = v"
proof (induction v)
  case Nil
  show ?case by simp
next
  case (Cons x xs)
  obtain q qs where q: "split_space xs = q # qs"
    using split_space_nonempty [of xs] by (cases "split_space xs") auto
  show ?case
  proof (cases "x = CHR '' ''")
    case True
    with Cons q show ?thesis by simp
  next
    case False
    with Cons q show ?thesis by (cases qs) auto
  qed
qed

lemma join_space_middle:
  "join_space (as @ c # bs) =
     (if as = [] then [] else join_space as @ '' '') @ c @
     (if bs = [] then [] else '' '' @ join_space bs)"
proof (induction as rule: join_space.induct)
  case 1
  show ?case by (cases bs) auto
next
  case (2 p)
  show ?case by (cases bs) auto
next
  case (3 p q ps)
  then show ?case by auto
qed

lemma split_space_append_space:
  "split_space (a @ CHR '' '' # b) = split_space a @ split_space b"
proof (induction a)
  case Nil
  show ?case by simp
next
  case (Cons x xs)
  obtain q qs where q: "split_space xs = q # qs"
    using split_space_nonempty [of xs] by (cases "split_space xs") auto
  with Cons show ?case by auto
qed

lemma split_space_single: "CHR '' '' \<notin> set c \<Longrightarrow> split_space c = [c]"
  by (induction c) auto

lemma split_space_member:
  "c \<in> set (split_space v) \<longleftrightarrow>
   CHR '' '' \<notin> set c \<and>
   (\<exists>l r. v = l @ c @ r \<and> (l = [] \<or> last l = CHR '' '') \<and> (r = [] \<or> hd r = CHR '' ''))"
proof
  assume mem: "c \<in> set (split_space v)"
  then obtain as bs where s: "split_space v = as @ c # bs" by (auto simp: in_set_conv_decomp)
  have "v = join_space (as @ c # bs)" using join_split_space [of v] s by simp
  then have v: "v = (if as = [] then [] else join_space as @ '' '') @ c @
     (if bs = [] then [] else '' '' @ join_space bs)"
    by (simp only: join_space_middle)
  have "(if as = [] then [] else join_space as @ '' '') = [] \<or>
        last (if as = [] then [] else join_space as @ '' '') = CHR '' ''" by simp
  moreover have "(if bs = [] then [] else '' '' @ join_space bs) = [] \<or>
        hd (if bs = [] then [] else '' '' @ join_space bs) = CHR '' ''" by simp
  ultimately show "CHR '' '' \<notin> set c \<and>
   (\<exists>l r. v = l @ c @ r \<and> (l = [] \<or> last l = CHR '' '') \<and> (r = [] \<or> hd r = CHR '' ''))"
    using v split_space_no_space [OF mem] by blast
next
  assume "CHR '' '' \<notin> set c \<and>
   (\<exists>l r. v = l @ c @ r \<and> (l = [] \<or> last l = CHR '' '') \<and> (r = [] \<or> hd r = CHR '' ''))"
  then obtain l r where ns: "CHR '' '' \<notin> set c" and v: "v = l @ c @ r"
    and l: "l = [] \<or> last l = CHR '' ''" and r: "r = [] \<or> hd r = CHR '' ''" by blast
  have right: "c \<in> set (split_space (c @ r))"
  proof (cases r)
    case Nil
    with ns show ?thesis by (simp add: split_space_single)
  next
    case (Cons y ys)
    with r have "c @ r = c @ CHR '' '' # ys" by simp
    with ns show ?thesis by (simp add: split_space_append_space split_space_single)
  qed
  show "c \<in> set (split_space v)"
  proof (cases "l = []")
    case True
    with v right show ?thesis by simp
  next
    case False
    with l have "l = butlast l @ [CHR '' '']" by (metis append_butlast_last_id)
    then have "v = butlast l @ CHR '' '' # (c @ r)" using v by (metis append_Cons append_Nil append_assoc)
    with right show ?thesis by (simp add: split_space_append_space)
  qed
qed


lemma hasClass_iff:
  "hasClass node c \<longleftrightarrow>
   (\<exists>v. map_of (node_attributes node) ''class'' = Some v \<and> c \<in> set (split_space v))"
  by (auto simp: hasClass_def Let_def split: option.splits)

text \<open>
  The claim's words: the tokens of a value split on whitespace, that is the maximal runs
  of characters that are not whitespace (Python's \<open>split()\<close> with no argument).
\<close>

function whitespace_tokens :: "string \<Rightarrow> string list" where
  "whitespace_tokens [] = []"
| "whitespace_tokens (c # cs) =
     (if isspace c then whitespace_tokens cs
      else (c # takeWhile (\<lambda>x. \<not> isspace x) cs) #
           whitespace_tokens (dropWhile (\<lambda>x. \<not> isspace x) cs))"
  by pat_completeness auto
termination
  by (relation "measure length") (auto simp: length_dropWhile_le less_Suc_eq_le)

text \<open>
  Claim C8 as stated fails: with a tab between two class names, \<open>a\<close> is one of the
  whitespace-separated tokens of the value, and \<open>hasClass\<close> does not find it.
\<close>

theorem C8_tab_separated_class_counterexample:
  "''a'' \<in> set (whitespace_tokens [CHR ''a'', CHR 0x09, CHR ''b'']) \<and>
   \<not> hasClass (HTMLElementNode ''div'' [(''class'', [CHR ''a'', CHR 0x09, CHR ''b''])] []) ''a'' \<and>
   getElementsByClassName
     (HTMLElementNode ''div'' [(''class'', [CHR ''a'', CHR 0x09, CHR ''b''])] []) ''a'' = []"
  by (simp add: isspace_def hasClass_def getElementsByClassName_def search_def
      is_element_node_def)

text \<open>
  Claim C8, amended. The value of the \<open>class\<close> attribute is split at every single space
  character and at nothing else: \<open>hasClass\<close> holds exactly when the element has a \<open>class\<close>
  attribute, the name asked for contains no space, and the name stands in the value
  between the start of the value or a space and the end of the value or a space. This is
  membership of a whole piece, not of a substring; a piece may be empty. And
  \<open>getElementsByClassName\<close> returns, in document order, exactly the element nodes at and
  below the start node for which \<open>hasClass\<close> holds.
\<close>

theorem C8_hasClass_splits_on_single_spaces:
  "(hasClass node c \<longleftrightarrow>
     (\<exists>v. map_of (node_attributes node) ''class'' = Some v \<and>
          CHR '' '' \<notin> set c \<and>
          (\<exists>l r. v = l @ c @ r \<and> (l = [] \<or> last l = CHR '' '') \<and>
                 (r = [] \<or> hd r = CHR '' '')))) \<and>
   getElementsByClassName self c =
     filter (\<lambda>node. is_element_node node \<and> hasClass node c) (preorder None self)"
  by (simp add: hasClass_iff split_space_member getElementsByClassName_def search_unbounded)


section \<open>Truncated tags, unresolved close tags, exhausted input, repeated attributes\<close>

text \<open>
  Claim C3 fails at a text that ends in a lone \<open><\<close>: \<open>_readTag\<close> reads the character after
  the \<open><\<close> without testing the length, so the read attempt does not fail cleanly, and
  \<open>next\<close> and the constructor of the document end in Python's \<open>IndexError\<close>, in both
  modes, where the claim has \<open>UnparsableSegment\<close>.
\<close>

theorem C3_lone_angle_bracket_IndexError:
  "readTag (HTMLParser_init ''<'' True) 0 = Inl IndexError \<and>
   readTag (HTMLParser_init ''<'' False) 0 = Inl IndexError \<and>
   parser_next (HTMLParser_init ''<'' True) = Inl IndexError \<and>
   parser_next (HTMLParser_init ''<'' False) = Inl IndexError \<and>
   HTMLDocument_init ''<'' True False = Inl IndexError \<and>
   HTMLDocument_init ''<'' False False = Inl IndexError \<and>
   parser_next (HTMLParser_init ''<a'' False) = Inl IndexError \<and>
   parser_next (HTMLParser_init ''a<'' False) = Inl IndexError"
  by code_simp

text \<open>
  Claim C1 fails where a child pass gets an unresolved close segment back: the code
  compares the name of the child's own open segment, not of the segment returned, with the
  parent's name, and it hands that open segment up. In \<open><div><p><b></p><i></i></div>\<close>,
  lenient, the \<open></p>\<close> returned from \<open>b\<close> does not close \<open>p\<close>: \<open>p\<close> and then \<open>div\<close> are
  left, and \<open>i\<close> becomes a root node instead of a child of \<open>div\<close>. In \<open><p>A<b>B</p>\<close>,
  strict, the build fails, with the root pass's "no matching open" at position 0 and not
  with \<open>UnclosedElement\<close>. And the child pass of \<open>p\<close> in \<open><p><b></p>\<close> returns the open
  segment of \<open>b\<close>, where the claim has "resolved".
\<close>

theorem C1_close_of_grandparent:
  "(case HTMLDocument_init ''<div><p><b></p><i></i></div>'' False False of
      Inr document \<Rightarrow>
        doc_rootList document =
          [HTMLElementNode ''div'' [] [HTMLElementNode ''p'' [] [HTMLElementNode ''b'' [] []]],
           HTMLElementNode ''i'' [] []]
    | Inl e \<Rightarrow> False) \<and>
   HTMLDocument_init ''<p>A<b>B</p>'' True False = Inl (UnmatchedCloseTag 0) \<and>
   (case parser_next (HTMLParser_init ''<p><b></p>'' False) of
      Inr (Some segment, parser) \<Rightarrow>
        (case loadChildren
                \<lparr>doc_text = ''<p><b></p>'', doc_strict = False, doc_comments = False,
                 doc_rootList = [], doc_doctype = None, doc_html = None, doc_head = None,
                 doc_body = None\<rparr>
                (createNode segment) parser of
           Inr (response, node, parser') \<Rightarrow>
             node_name (createNode segment) = ''p'' \<and>
             response = Some (HTMLParserElementSegment ''<b>'' 3 6 ''b'' True False [])
         | Inl e \<Rightarrow> False)
    | _ \<Rightarrow> False)"
  by code_simp


lemma readWhitespace_at_end:
  "self_htmlLength self \<le> position \<Longrightarrow> readWhitespace self position = position"
  by (subst readWhitespace.simps) simp

lemma parser_next_exhausted_lenient:
  assumes "\<not> self_strict self" and "parser_next self = Inr (None, self')"
  shows "self' = self\<lparr>self_position := self_htmlLength self\<rparr> \<and>
         parser_next self' = Inr (None, self')"
proof -
  define p where "p = readWhitespace self (self_position self)"
  from assms have p: "p = self_htmlLength self" and s': "self' = self\<lparr>self_position := p\<rparr>"
    by (auto simp: parser_next_def Let_def p_def next_update_def readText_def
        readSpecialContextText_def self_htmlLength_def
        split: if_splits option.splits sum.splits prod.splits)
  have len: "self_htmlLength self' = self_htmlLength self"
    using s' by (simp add: self_htmlLength_def)
  have "readWhitespace self' (self_position self') = self_htmlLength self"
    using s' p len readWhitespace_at_end [of self' "self_htmlLength self"] by simp
  then have "parser_next self' = Inr (None, self')"
    using s' p len by (simp add: parser_next_def Let_def)
  with s' p show ?thesis by simp
qed

text \<open>
  Claim C6. Whenever the child pass asks for a segment and the stream is exhausted, the
  build in strict mode fails with \<open>UnclosedElement\<close> (an error, so no document), and the
  build in lenient mode returns "resolved" with the parent and the children it has, the
  parent implicitly closed. In lenient mode the stream then stays exhausted, so every
  enclosing child pass returns in the same way and the root pass returns the document:
  the lenient build succeeds. (The stream is the one of the mode that builds.)
\<close>

theorem C6_exhausted_stream_strict_fails_lenient_closes:
  assumes "parser_next parser = Inr (None, parser')"
  shows "(doc_strict self \<longrightarrow> loadChildren self parent parser = Inl UnclosedElement) \<and>
         (\<not> doc_strict self \<longrightarrow>
            loadChildren self parent parser = Inr (None, parent, parser')) \<and>
         (\<not> doc_strict self \<and> \<not> self_strict parser \<longrightarrow>
            parser_next parser' = Inr (None, parser') \<and>
            loadChildren self enclosing parser' = Inr (None, enclosing, parser') \<and>
            load_loop self parser' = Inr self)"
proof -
  have a: "doc_strict self \<longrightarrow> loadChildren self parent parser = Inl UnclosedElement"
    using assms by (subst loadChildren.simps) simp
  have b: "\<not> doc_strict self \<longrightarrow>
            loadChildren self parent parser = Inr (None, parent, parser')"
    using assms by (subst loadChildren.simps) simp
  have c: "\<not> doc_strict self \<and> \<not> self_strict parser \<longrightarrow>
            parser_next parser' = Inr (None, parser') \<and>
            loadChildren self enclosing parser' = Inr (None, enclosing, parser') \<and>
            load_loop self parser' = Inr self"
  proof
    assume h: "\<not> doc_strict self \<and> \<not> self_strict parser"
    then have "\<not> self_strict parser" by simp
    from parser_next_exhausted_lenient [OF this assms]
    have n: "parser_next parser' = Inr (None, parser')" by (rule conjunct2)
    then have "loadChildren self enclosing parser' = Inr (None, enclosing, parser')"
      using h by (subst loadChildren.simps) simp
    moreover from n have "load_loop self parser' = Inr self"
      by (subst load_loop.simps) simp
    ultimately show "parser_next parser' = Inr (None, parser') \<and>
            loadChildren self enclosing parser' = Inr (None, enclosing, parser') \<and>
            load_loop self parser' = Inr self"
      using n by simp
  qed
  from a b c show ?thesis by blast
qed


theorem C6_exhausted_stream_strict_fails_lenient_closes_witness:
  "parser_next \<lparr>self_html = ''<p>'', self_strict = False, self_position = 3,
       self_segmentCurrent = Some (HTMLParserElementSegment ''<p>'' 0 3 ''p'' True False []),
       self_segmentNext = None\<rparr> =
     Inr (None, \<lparr>self_html = ''<p>'', self_strict = False, self_position = 3,
       self_segmentCurrent = Some (HTMLParserElementSegment ''<p>'' 0 3 ''p'' True False []),
       self_segmentNext = None\<rparr>) \<and>
   loadChildren \<lparr>doc_text = ''<p>'', doc_strict = False, doc_comments = False,
       doc_rootList = [], doc_doctype = None, doc_html = None, doc_head = None,
       doc_body = None\<rparr> (HTMLElementNode ''p'' [] [])
     \<lparr>self_html = ''<p>'', self_strict = False, self_position = 3,
       self_segmentCurrent = Some (HTMLParserElementSegment ''<p>'' 0 3 ''p'' True False []),
       self_segmentNext = None\<rparr> =
     Inr (None, HTMLElementNode ''p'' [] [],
       \<lparr>self_html = ''<p>'', self_strict = False, self_position = 3,
       self_segmentCurrent = Some (HTMLParserElementSegment ''<p>'' 0 3 ''p'' True False []),
       self_segmentNext = None\<rparr>) \<and>
   loadChildren \<lparr>doc_text = ''<p>'', doc_strict = True, doc_comments = False,
       doc_rootList = [], doc_doctype = None, doc_html = None, doc_head = None,
       doc_body = None\<rparr> (HTMLElementNode ''p'' [] [])
     \<lparr>self_html = ''<p>'', self_strict = False, self_position = 3,
       self_segmentCurrent = Some (HTMLParserElementSegment ''<p>'' 0 3 ''p'' True False []),
       self_segmentNext = None\<rparr> = Inl UnclosedElement \<and>
   HTMLDocument_init ''<p>'' True False = Inl UnclosedElement \<and>
   (case HTMLDocument_init ''<p>'' False False of
      Inr document \<Rightarrow> doc_rootList document = [HTMLElementNode ''p'' [] []]
    | Inl e \<Rightarrow> False)"
proof -
  let ?parser = "\<lparr>self_html = ''<p>'', self_strict = False, self_position = 3,
       self_segmentCurrent = Some (HTMLParserElementSegment ''<p>'' 0 3 ''p'' True False []),
       self_segmentNext = None\<rparr>"
  let ?lenient = "\<lparr>doc_text = ''<p>'', doc_strict = False, doc_comments = False,
       doc_rootList = [], doc_doctype = None, doc_html = None, doc_head = None,
       doc_body = None\<rparr>"
  let ?strict = "\<lparr>doc_text = ''<p>'', doc_strict = True, doc_comments = False,
       doc_rootList = [], doc_doctype = None, doc_html = None, doc_head = None,
       doc_body = None\<rparr>"
  have h: "parser_next ?parser = Inr (None, ?parser)" by code_simp
  have s: "HTMLDocument_init ''<p>'' True False = Inl UnclosedElement" by code_simp
  have l: "(case HTMLDocument_init ''<p>'' False False of
      Inr document \<Rightarrow> doc_rootList document = [HTMLElementNode ''p'' [] []]
    | Inl e \<Rightarrow> False)" by code_simp
  from C6_exhausted_stream_strict_fails_lenient_closes
         [OF h, of ?lenient "HTMLElementNode ''p'' [] []"]
       C6_exhausted_stream_strict_fails_lenient_closes
         [OF h, of ?strict "HTMLElementNode ''p'' [] []"]
       h s l
  show ?thesis by simp
qed

lemma readWhitespace_strict:
  "readWhitespace (self\<lparr>self_strict := b\<rparr>) position = readWhitespace self position"
proof (induction self position rule: readWhitespace.induct)
  case (1 self position)
  let ?s = "self\<lparr>self_strict := b\<rparr>"
  have len: "self_htmlLength ?s = self_htmlLength self" by (simp add: self_htmlLength_def)
  show ?case
  proof (cases "position < self_htmlLength self \<and> isspace (self_html self ! position)")
    case True
    from "1.IH" [OF True]
    have IH: "readWhitespace ?s (position + 1) = readWhitespace self (position + 1)" .
    have "readWhitespace ?s position = readWhitespace ?s (position + 1)"
      using True len by (subst readWhitespace.simps) simp
    moreover have "readWhitespace self position = readWhitespace self (position + 1)"
      using True by (subst readWhitespace.simps) simp
    ultimately show ?thesis using IH by simp
  next
    case False
    have "readWhitespace ?s position = position"
      using False len by (subst readWhitespace.simps) auto
    moreover have "readWhitespace self position = position"
      using False by (subst readWhitespace.simps) auto
    ultimately show ?thesis by simp
  qed
qed

lemma readQuoted_loop_strict:
  "readQuoted_loop (self\<lparr>self_strict := b\<rparr>) quote position =
   readQuoted_loop self quote position"
proof (induction self quote position rule: readQuoted_loop.induct)
  case (1 self quote position)
  let ?s = "self\<lparr>self_strict := b\<rparr>"
  have len: "self_htmlLength ?s = self_htmlLength self" by (simp add: self_htmlLength_def)
  show ?case
  proof (cases "position < self_htmlLength self")
    case lt: True
    show ?thesis
    proof (cases "self_html self ! position = quote")
      case True
      have "readQuoted_loop ?s quote position = Some (position + 1)"
        using lt True len by (subst readQuoted_loop.simps) simp
      moreover have "readQuoted_loop self quote position = Some (position + 1)"
        using lt True by (subst readQuoted_loop.simps) simp
      ultimately show ?thesis by simp
    next
      case nq: False
      show ?thesis
      proof (cases "self_html self ! position = CHR 0x5C")
        case True
        have "readQuoted_loop ?s quote position = readQuoted_loop ?s quote (position + 2)"
          using lt nq True len by (subst readQuoted_loop.simps) simp
        moreover have "readQuoted_loop self quote position =
                       readQuoted_loop self quote (position + 2)"
          using lt nq True by (subst readQuoted_loop.simps) simp
        ultimately show ?thesis using "1.IH"(1) [OF lt refl nq True] by simp
      next
        case False
        have "readQuoted_loop ?s quote position = readQuoted_loop ?s quote (position + 1)"
          using lt nq False len by (subst readQuoted_loop.simps) simp
        moreover have "readQuoted_loop self quote position =
                       readQuoted_loop self quote (position + 1)"
          using lt nq False by (subst readQuoted_loop.simps) simp
        ultimately show ?thesis using "1.IH"(2) [OF lt refl nq False] by simp
      qed
    qed
  next
    case False
    have "readQuoted_loop ?s quote position = None"
      using False len by (subst readQuoted_loop.simps) simp
    moreover have "readQuoted_loop self quote position = None"
      using False by (subst readQuoted_loop.simps) simp
    ultimately show ?thesis by simp
  qed
qed

lemma length_update:
  "length (AList.update k v al) = (if k \<in> fst ` set al then length al else Suc (length al))"
  by (induction al) auto

lemma update_keys_present:
  "k \<in> fst ` set al \<Longrightarrow> map fst (AList.update k v al) = map fst al"
  by (induction al) auto

text \<open>
  Claim C5 as stated fails: a text with a tag that repeats an attribute name builds in
  strict mode. The tag is not read as a tag, its characters become a text node, and no
  failure of any kind is raised.
\<close>

theorem C5_duplicate_attribute_strict_counterexample:
  "(case HTMLDocument_init ''<br b b><p></p>'' True False of
      Inr document \<Rightarrow>
        doc_rootList document = [HTMLTextNode ''<br b b>'', HTMLElementNode ''p'' [] []]
    | Inl e \<Rightarrow> False)"
  by code_simp

text \<open>
  Claim C5, amended. Where lenient mode reads an attribute whose name is already in the
  dictionary of the tag (the read adds no entry), strict mode reads no attribute:
  \<open>_readTagAttribute\<close> returns \<open>None\<close>, raises nothing and leaves the dictionary as it
  was, so the attribute loop of \<open>_readTag\<close> ends at this position. Lenient mode accepts
  the repeated name: the entry keeps its place and takes the later value.
\<close>

theorem C5_duplicate_attribute_strict_none_lenient_overwrites:
  assumes "readTagAttribute (self\<lparr>self_strict := False\<rparr>) position attributes =
             Inr (Some (result, attributes'))"
    and "length attributes' = length attributes"
  shows "readTagAttribute (self\<lparr>self_strict := True\<rparr>) position attributes = Inr None \<and>
         readTag_attributes (self\<lparr>self_strict := True\<rparr>) position attributes =
           Inr (position, attributes) \<and>
         (\<exists>name value. name \<in> fst ` set attributes \<and>
            attributes' = AList.update name value attributes \<and>
            map_of attributes' name = Some value \<and>
            map fst attributes' = map fst attributes)"
proof -
  let ?l = "self\<lparr>self_strict := False\<rparr>" and ?s = "self\<lparr>self_strict := True\<rparr>"
  let ?h = "self_html self"
  define p1 where "p1 = readWhitespace self position"
  have w: "\<And>b q. readWhitespace (self\<lparr>self_strict := b\<rparr>) q = readWhitespace self q"
    by (rule readWhitespace_strict)
  from assms(1) obtain e where e: "readTagAttributeProperty ?l p1 = Inr (Some e)"
    by (auto simp: readTagAttribute_def Let_def w p1_def split: sum.splits option.splits)
  define name where "name = lower (strip (unwrap (slice ?h p1 e)))"
  define p2 where "p2 = readWhitespace self e"
  from assms(1) e obtain c where c: "char_at ?h p2 = Inr c"
    by (auto simp: readTagAttribute_def Let_def w p1_def p2_def split: sum.splits)
  from assms(1) e c obtain v where
    upd: "attributes' = AList.update name v attributes"
    and val: "c = CHR ''='' \<longrightarrow>
              (\<exists>r. readTagAttributeValue ?l (p2 + 1) = Inr (Some r) \<and>
                   v = unwrap (slice ?h (p2 + 1) r))"
    by (auto simp: readTagAttribute_def Let_def w p1_def p2_def name_def
        split: sum.splits option.splits if_splits)
  from upd assms(2) have mem: "name \<in> fst ` set attributes"
    by (simp add: length_update split: if_splits)
  from e have ch1: "\<exists>q. char_at ?h p1 = Inr q"
    by (auto simp: readTagAttributeProperty_def split: sum.splits)
  have pr: "readTagAttributeProperty ?s p1 = Inr None \<or>
              readTagAttributeProperty ?s p1 = Inr (Some e)"
    using e ch1
    by (auto simp: readTagAttributeProperty_def readQuoted_loop_strict
        readTagAttributeProperty_loop_strict split: sum.splits if_splits)
  have valS: "c = CHR ''='' \<longrightarrow>
        readTagAttributeValue ?s (p2 + 1) = Inr None \<or>
        (\<exists>r. readTagAttributeValue ?s (p2 + 1) = Inr (Some r))"
    using val
    by (auto simp: readTagAttributeValue_def readQuoted_loop_strict
        split: sum.splits if_splits)
  define keys where "keys = fst ` set attributes"
  have mem': "name \<in> keys" using mem by (simp add: keys_def)
  have none: "readTagAttribute ?s position attributes = Inr None"
    using pr c valS mem'
    by (auto simp: readTagAttribute_def Let_def w p1_def [symmetric] p2_def [symmetric]
        name_def [symmetric] keys_def [symmetric] split: sum.splits option.splits)
  then have loop: "readTag_attributes ?s position attributes = Inr (position, attributes)"
    by (subst readTag_attributes.simps) simp
  from upd mem have "map_of attributes' name = Some v"
    "map fst attributes' = map fst attributes"
    by (simp_all add: update_conv' update_keys_present)
  with none loop upd mem show ?thesis by blast
qed


theorem C5_duplicate_attribute_strict_none_lenient_overwrites_witness:
  "readTagAttribute (HTMLParser_init ''<a b=\"1\" b=\"2\">'' False) 9 [(''b'', ''1'')] =
     Inr (Some (14, [(''b'', ''2'')])) \<and>
   length [(''b'', ''2'')] = length [(''b'', ''1'')] \<and>
   readTagAttribute (HTMLParser_init ''<a b=\"1\" b=\"2\">'' True) 9 [(''b'', ''1'')] = Inr None \<and>
   readTag (HTMLParser_init ''<a b=\"1\" b=\"2\">'' True) 0 = Inr None \<and>
   readTag (HTMLParser_init ''<a b=\"1\" b=\"2\">'' False) 0 =
     Inr (Some (HTMLParserElementSegment ''<a b=\"1\" b=\"2\">'' 0 15 ''a'' True False
            [(''b'', ''2'')]))"
proof -
  let ?P = "HTMLParser_init ''<a b=\"1\" b=\"2\">'' False"
  have e: "?P\<lparr>self_strict := False\<rparr> = ?P"
    "?P\<lparr>self_strict := True\<rparr> = HTMLParser_init ''<a b=\"1\" b=\"2\">'' True"
    by (simp_all add: HTMLParser_init_def)
  have h1: "readTagAttribute (?P\<lparr>self_strict := False\<rparr>) 9 [(''b'', ''1'')] =
     Inr (Some (14, [(''b'', ''2'')]))"
    unfolding e by code_simp
  have h2: "length [(''b'', ''2'')] = length [(''b'', ''1'')]" by simp
  have t1: "readTag (HTMLParser_init ''<a b=\"1\" b=\"2\">'' True) 0 = Inr None"
    by code_simp
  have t2: "readTag ?P 0 =
     Inr (Some (HTMLParserElementSegment ''<a b=\"1\" b=\"2\">'' 0 15 ''a'' True False
            [(''b'', ''2'')]))"
    by code_simp
  from C5_duplicate_attribute_strict_none_lenient_overwrites [OF h1 h2] h1 t1 t2
  show ?thesis unfolding e by simp
qed


section \<open>The tokenizer on a text that is written piece by piece\<close>

subsection \<open>Reading a known text\<close>






text \<open>A character that ends a tag name, and one that ends an unquoted attribute name.\<close>

definition name_end_char :: "char \<Rightarrow> bool" where
  "name_end_char c = (isspace c \<or> c \<in> set ''/>'')"

definition property_end_char :: "char \<Rightarrow> bool" where
  "property_end_char c = (isspace c \<or> c \<in> set ''=/>'')"

text \<open>A tag name that both modes read whole: strict mode wants a letter or \<open>_\<close> first.\<close>

definition name_chars_ok :: "bool \<Rightarrow> string \<Rightarrow> bool" where
  "name_chars_ok strict name =
     (name \<noteq> [] \<and> (\<forall>c \<in> set name. \<not> name_end_char c) \<and>
      hd name \<noteq> CHR ''!'' \<and> \<not> is_quote (hd name) \<and>
      (strict \<longrightarrow> (isalpha (hd name) \<or> hd name = CHR ''_'') \<and>
                  (\<forall>c \<in> set (tl name). isalnum c \<or> c \<in> set ''-_.'')))"









text \<open>
  An unquoted attribute name that is read whole, and a value that a pair of double quotes
  holds.
\<close>

definition key_ok :: "string \<Rightarrow> bool" where
  "key_ok k = (k \<noteq> [] \<and> (\<forall>c \<in> set k. \<not> property_end_char c) \<and> \<not> is_quote (hd k))"

definition value_ok :: "string \<Rightarrow> bool" where
  "value_ok v = (\<forall>c \<in> set v. c \<noteq> CHR 0x22 \<and> c \<noteq> CHR 0x5C)"








subsection \<open>Attributes as they are written in a tag\<close>

text \<open>
  An attribute as written: a name alone, or a name, \<open>=\<close> and a value in double quotes.
\<close>

type_synonym written_attribute = "string \<times> string option"

definition attr_text :: "written_attribute \<Rightarrow> string" where
  "attr_text a = (case snd a of None \<Rightarrow> fst a | Some v \<Rightarrow> fst a @ ''=\"'' @ v @ ''\"'')"





text \<open>
  The text of a tag from its first attribute on: the attributes with one space between
  them, then \<open>sp\<close> (spaces, possibly none) and the rest \<open>fin\<close>, which begins with the \<open>/\<close>
  or the \<open>>\<close> that ends the tag.
\<close>

fun attrs_from :: "written_attribute list \<Rightarrow> string \<Rightarrow> string \<Rightarrow> string" where
  "attrs_from [] sp fin = fin"
| "attrs_from [a] sp fin = attr_text a @ sp @ fin"
| "attrs_from (a # b # as) sp fin = attr_text a @ '' '' @ attrs_from (b # as) sp fin"





subsection \<open>A whole tag\<close>

text \<open>
  The text of a tag: \<open><\<close>, a \<open>/\<close> for a close tag, the name, the attributes, and the end
  \<open>>\<close>, \<open>/>\<close> or \<open> />\<close> (\<open>sp\<close> is the space before the end, \<open>sc\<close> the \<open>/\<close> of a self-closing
  tag).
\<close>

definition tag_text ::
  "string \<Rightarrow> string \<Rightarrow> written_attribute list \<Rightarrow> string \<Rightarrow> string \<Rightarrow> string" where
  "tag_text slash name as sp sc =
     ''<'' @ slash @ name @ (if as = [] then sp else '' '') @ attrs_from as sp (sc @ ''>'')"







subsection \<open>Comments and text runs\<close>




text \<open>
  The text of a comment, \<open><!--\<close>, a body and \<open>-->\<close>, where the closing \<open>-->\<close> is the first
  one after the \<open><!--\<close>.
\<close>

definition comment_text :: "string \<Rightarrow> string" where
  "comment_text body = ''<!--'' @ body @ ''-->''"

definition comment_body_ok :: "string \<Rightarrow> bool" where
  "comment_body_ok body =
     (\<forall>i < length body. take 3 (drop i (body @ ''-->'')) \<noteq> ''-->'')"



lemma readComment_not_comment:
  assumes "drop p (self_html self) = w @ rest" and "length w \<ge> 4" and "take 4 w \<noteq> ''<!--''"
  shows "readComment self p = None"
proof -
  have "slice (self_html self) p (p + 4) = take 4 w"
    using assms(1,2) by (simp add: slice_def)
  with assms(3) show ?thesis by (simp add: readComment_def)
qed



subsection \<open>Tokenizing: all the segments of a text\<close>



text \<open>
  The pieces a markup text is made of: a tag, a comment, or a run of text that holds no
  \<open><\<close> and is not blank.
\<close>

datatype item =
    ITag string string "written_attribute list" string string
  | IComment string
  | IText string

fun item_text :: "item \<Rightarrow> string" where
  "item_text (ITag slash name as sp sc) = tag_text slash name as sp sc"
| "item_text (IComment body) = comment_text body"
| "item_text (IText t) = t"


fun is_text :: "item \<Rightarrow> bool" where
  "is_text (IText t) = True"
| "is_text _ = False"

























text \<open>
  A markup text as a sequence of pieces, each with the white space that is written in
  front of it.
\<close>

type_synonym piece = "string \<times> item"


















section \<open>The segment builder of the tests (tests/htmltools/builder.py)\<close>


record HTMLSegmentBuilder =
  b_segments :: "string list"
  b_index :: "(string \<times> nat) list"
  b_pretty :: bool
  b_indentText :: string
  b_indentLevel :: int















text \<open>A chain of calls on a builder, as the tests write it.\<close>

datatype builder_call =
    Doctype string "string option"
  | Open string "(string \<times> string) list" "string option"
  | Void string "(string \<times> string) list" "string option"
  | Close string "string option"
  | Comment string "string option"
  | Text string "string option"



subsection \<open>The pieces that a chain of calls writes\<close>

fun is_text_call :: "builder_call \<Rightarrow> bool" where
  "is_text_call (Text text' name) = True"
| "is_text_call _ = False"

definition written_attributes :: "(string \<times> string) list \<Rightarrow> written_attribute list" where
  "written_attributes attributes = map (\<lambda>(name, v). (name, Some v)) attributes"

fun call_item :: "builder_call \<Rightarrow> item" where
  "call_item (Doctype type name) = ITag [] ''!DOCTYPE'' [(type, None)] [] []"
| "call_item (Open tagName attributes name) =
     ITag [] tagName (written_attributes attributes) [] []"
| "call_item (Void tagName attributes name) =
     ITag [] tagName (written_attributes attributes) '' '' ''/''"
| "call_item (Close tagName name) = ITag ''/'' tagName [] [] []"
| "call_item (Comment comment name) = IComment ('' '' @ comment @ '' '')"
| "call_item (Text text' name) = IText text'"


definition call_piece :: "string \<Rightarrow> builder_call \<Rightarrow> piece" where
  "call_piece ws c =
     (case c of Text text' name \<Rightarrow> ([], IText (ws @ text')) | _ \<Rightarrow> (ws, call_item c))"




definition indent_ok :: "HTMLSegmentBuilder \<Rightarrow> bool" where
  "indent_ok self = (b_pretty self \<longrightarrow> (\<forall>c \<in> set (b_indentText self). isspace c))"




lemma indent_ok_cong:
  "b_pretty self' = b_pretty self \<Longrightarrow> b_indentText self' = b_indentText self \<Longrightarrow>
   indent_ok self' = indent_ok self"
  by (simp add: indent_ok_def)




lemma is_text_call_item [simp]: "is_text (call_item c) = is_text_call c"
  by (cases c) simp_all

lemma is_text_call_piece [simp]: "is_text (snd (call_piece ws c)) = is_text_call c"
  by (cases c) (simp_all add: call_piece_def)









section \<open>Writing a tree and building it again\<close>

subsection \<open>The parser in front of a sequence of pieces\<close>






subsection \<open>The trees that are written and built again\<close>

text \<open>
  The attributes as \<open>write\<close> writes them: in a \<open>!doctype\<close> tag an attribute with the value
  \<open>true\<close> is written as its name alone.
\<close>

definition serialized_attributes :: "string \<Rightarrow> attributes \<Rightarrow> written_attribute list" where
  "serialized_attributes name attributes =
     map (\<lambda>(key, v). if name = ''!doctype'' \<and> v = ''true'' then (key, None) else (key, Some v))
       attributes"

text \<open>
  The pieces that \<open>write\<close> writes for a node when it neither indents nor shrinks text:
  one tag for a void element and for an element without children that is written
  self-closing, and else the open tag, the pieces of the children and the close tag.
\<close>

fun node_items :: "bool \<Rightarrow> HTMLNode \<Rightarrow> item list" where
  "node_items selfc (HTMLElementNode name attributes children) =
     (if name \<notin> set neverSelfClosing \<and> (name \<in> set voidTags \<or> (selfc \<and> children = []))
      then [ITag [] (write_name name) (serialized_attributes name attributes)
              (if name \<notin> set voidTags \<and> attributes \<noteq> [] then '' '' else [])
              (if name \<notin> set voidTags then ''/'' else [])]
      else ITag [] (write_name name) (serialized_attributes name attributes) [] [] #
           concat (map (node_items selfc) children) @ [ITag ''/'' name [] [] []])"
| "node_items selfc (HTMLTextNode t) = [IText t]"
| "node_items selfc (HTMLCommentNode c) = [IComment ('' '' @ c @ '' '')]"
| "node_items selfc NoneNode = []"

definition nodes_items :: "bool \<Rightarrow> HTMLNode list \<Rightarrow> item list" where
  "nodes_items selfc nodes = concat (map (node_items selfc) nodes)"

definition items_text :: "item list \<Rightarrow> string" where
  "items_text xs = concat (map item_text xs)"

fun is_text_node :: "HTMLNode \<Rightarrow> bool" where
  "is_text_node (HTMLTextNode t) = True"
| "is_text_node _ = False"

fun no_adjacent_text :: "HTMLNode list \<Rightarrow> bool" where
  "no_adjacent_text (a # b # nodes) =
     (\<not> (is_text_node a \<and> is_text_node b) \<and> no_adjacent_text (b # nodes))"
| "no_adjacent_text _ = True"

text \<open>
  An element that is read back as it is written: a name and attribute names in lower
  case that the tokenizer reads whole, no attribute name twice, and values without a
  double quote and without a backslash.
\<close>

definition element_ok :: "bool \<Rightarrow> string \<Rightarrow> attributes \<Rightarrow> bool" where
  "element_ok strict name attributes =
     ((name = ''!doctype'' \<or> name_chars_ok strict name \<and> lower name = name) \<and>
      distinct (map fst attributes) \<and>
      (\<forall>a \<in> set attributes. key_ok (fst a) \<and> lower (fst a) = fst a \<and> value_ok (snd a)))"

text \<open>
  A tree that is read back as it is written: a void element has no children, a raw-text
  element has at most one child, a text; a text is not empty, has no white space at its
  ends and no \<open><\<close>; no two texts are neighbours; a comment has no white space at its ends
  and no \<open>-->\<close>, and there are comments only in a document that keeps them.
\<close>

fun node_ok :: "bool \<Rightarrow> bool \<Rightarrow> HTMLNode \<Rightarrow> bool" where
  "node_ok strict comments (HTMLElementNode name attributes children) =
     (element_ok strict name attributes \<and>
      (name \<in> set voidTags \<longrightarrow> children = []) \<and>
      (name \<in> set contextSwitchTags \<longrightarrow>
         (case children of [] \<Rightarrow> True | [child] \<Rightarrow> is_text_node child | _ \<Rightarrow> False)) \<and>
      (\<forall>child \<in> set children. node_ok strict comments child) \<and> no_adjacent_text children)"
| "node_ok strict comments (HTMLTextNode t) = (t \<noteq> [] \<and> strip t = t \<and> CHR ''<'' \<notin> set t)"
| "node_ok strict comments (HTMLCommentNode c) =
     (comments \<and> strip c = c \<and> comment_body_ok ('' '' @ c @ '' ''))"
| "node_ok strict comments NoneNode = False"


subsection \<open>What \<open>write\<close> writes\<close>



lemma serialized_attributes_Nil [simp]:
  "serialized_attributes name attributes = [] \<longleftrightarrow> attributes = []"
  by (simp add: serialized_attributes_def)


subsection \<open>The pieces of a tree are read one by one\<close>












fun context_children :: "HTMLNode list \<Rightarrow> bool" where
  "context_children [] = True"
| "context_children [child] = is_text_node child"
| "context_children _ = False"

lemma node_ok_context:
  "node_ok strict comments (HTMLElementNode name attributes children) \<Longrightarrow>
   name \<in> set contextSwitchTags \<Longrightarrow> context_children children"
  by (cases children rule: context_children.cases) simp_all



subsection \<open>The builder on the pieces of a tree\<close>







lemma items_text_append [simp]: "items_text (xs @ ys) = items_text xs @ items_text ys"
  by (simp add: items_text_def)

lemma items_text_Cons [simp]: "items_text (x # xs) = item_text x @ items_text xs"
  by (simp add: items_text_def)

lemma items_text_Nil [simp]: "items_text [] = []"
  by (simp add: items_text_def)

lemma nodes_items_Cons [simp]:
  "nodes_items selfc (node # nodes) = node_items selfc node @ nodes_items selfc nodes"
  by (simp add: nodes_items_def)

lemma nodes_items_Nil [simp]: "nodes_items selfc [] = []"
  by (simp add: nodes_items_def)










subsection \<open>The document that is built from a text\<close>

















end
